theory Spec2Isabelle
  imports Main "HOL-Library.Word"
begin

unbundle bit_operations_syntax

section \<open>The buffer structure of buffer.h\<close>

text \<open>
  A buffer is the C structure \<^verbatim>\<open>buffer_t\<close>. The storage obtained from \<^verbatim>\<open>calloc\<close> is the
  list \<open>data\<close> of bytes; the pointers \<^verbatim>\<open>b->head\<close> and \<^verbatim>\<open>b->tail\<close> are kept as their byte
  offsets from \<^verbatim>\<open>b->data\<close>. The code does its pointer arithmetic on \<^verbatim>\<open>void *\<close>, where the
  compiler extension it relies on counts in bytes. \<^verbatim>\<open>unsigned int\<close> is a 32-bit word and
  \<^verbatim>\<open>unsigned char\<close> an 8-bit word, so that products wrap around as they do in C.
\<close>

type_synonym byte = "8 word"

text \<open>The caller's memory around the pointer \<^verbatim>\<open>d\<close>, addressed by the byte offset from \<^verbatim>\<open>d\<close>.\<close>

type_synonym memory = "int \<Rightarrow> byte"

record buffer_t =
  data :: "byte list"
  head :: nat
  tail :: nat
  depth :: "32 word"
  width :: "8 word"
  behavior :: "8 word"

definition B_STACK :: "8 word" where "B_STACK = 0xFF"
definition B_FILO :: "8 word" where "B_FILO = 0xFF"
definition B_QUEUE :: "8 word" where "B_QUEUE = 0x7F"
definition B_FIFO :: "8 word" where "B_FIFO = 0x7F"
definition B_OVERWRITE :: "8 word" where "B_OVERWRITE = 0xFF"
definition B_DROP :: "8 word" where "B_DROP = 0xBF"

text \<open>
  The bit fields \<^verbatim>\<open>unused:6\<close>, \<^verbatim>\<open>overwrite:1\<close>, \<^verbatim>\<open>stack:1\<close> of the union \<^verbatim>\<open>B_BEHAVIOR\<close>, laid
  out from the least significant bit as the constants above expect: \<^verbatim>\<open>B_QUEUE\<close> clears
  bit 7 and \<^verbatim>\<open>B_DROP\<close> clears bit 6.
\<close>

definition overwrite :: "buffer_t \<Rightarrow> bool" where
  "overwrite b = bit (behavior b) 6"

definition stack :: "buffer_t \<Rightarrow> bool" where
  "stack b = bit (behavior b) 7"

text \<open>
  The offset \<^verbatim>\<open>(b->depth - 1) * (b->width)\<close> of the last position of the ring, computed in
  \<^verbatim>\<open>unsigned int\<close>.
\<close>

definition last_off :: "buffer_t \<Rightarrow> nat" where
  "last_off b = unat ((depth b - 1) * ucast (width b) :: 32 word)"

section \<open>Construction\<close>

text \<open>
  \<^verbatim>\<open>newBuffer\<close>. The outcomes of \<^verbatim>\<open>malloc\<close> and \<^verbatim>\<open>calloc\<close> are inputs of the model; \<open>None\<close>
  is the \<^verbatim>\<open>NULL\<close> result. The sum \<^verbatim>\<open>numberOfElements + 1\<close> is taken in \<^verbatim>\<open>unsigned int\<close>
  before \<^verbatim>\<open>calloc\<close> multiplies it with the element size.
\<close>

definition newBuffer :: "bool \<Rightarrow> bool \<Rightarrow> 32 word \<Rightarrow> 8 word \<Rightarrow> 8 word \<Rightarrow> buffer_t option" where
  "newBuffer malloc_ok calloc_ok numberOfElements elementSizeInBytes behav =
     (if \<not> malloc_ok then None
      else if \<not> calloc_ok then None
      else Some \<lparr> data = replicate (unat (numberOfElements + 1) * unat elementSizeInBytes) 0,
                  head = 0,
                  tail = 0,
                  depth = numberOfElements + 1,
                  width = elementSizeInBytes,
                  behavior = behav \<rparr>)"

section \<open>Empty and full checks, cursor stepping\<close>

definition isBufferEmpty :: "buffer_t \<Rightarrow> bool" where
  "isBufferEmpty b = (head b = tail b)"

definition isBufferFull :: "buffer_t \<Rightarrow> bool" where
  "isBufferFull b = (tail b = head b + 1 \<or> (tail b = 0 \<and> head b \<ge> last_off b))"

definition increment :: "buffer_t \<Rightarrow> nat \<Rightarrow> nat" where
  "increment b ht = (if ht < last_off b then ht + 1 else 0)"

definition decrement :: "buffer_t \<Rightarrow> nat \<Rightarrow> nat" where
  "decrement b ht = (if ht > 0 then ht - 1 else last_off b)"

section \<open>Byte transfers\<close>

text \<open>
  Reading and writing the storage through a cursor. C leaves an access outside the
  allocated bytes undefined; the model returns \<open>None\<close> there.
\<close>

definition load :: "buffer_t \<Rightarrow> nat \<Rightarrow> byte option" where
  "load b off = (if off < length (data b) then Some (data b ! off) else None)"

definition store :: "buffer_t \<Rightarrow> nat \<Rightarrow> byte \<Rightarrow> buffer_t option" where
  "store b off v = (if off < length (data b) then Some (b\<lparr>data := (data b)[off := v]\<rparr>) else None)"

definition popByte :: "buffer_t \<Rightarrow> (byte \<times> buffer_t) option" where
  "popByte b =
     (if stack b then
        (let b1 = b\<lparr>head := decrement b (head b)\<rparr>
         in case load b1 (head b1) of None \<Rightarrow> None | Some v \<Rightarrow> Some (v, b1))
      else
        (case load b (tail b) of None \<Rightarrow> None
         | Some v \<Rightarrow> Some (v, b\<lparr>tail := increment b (tail b)\<rparr>)))"

definition pushByte :: "buffer_t \<Rightarrow> byte \<Rightarrow> buffer_t option" where
  "pushByte b v =
     (let b1 = (if isBufferFull b \<and> overwrite b then b\<lparr>tail := increment b (tail b)\<rparr> else b)
      in case store b1 (head b1) v of None \<Rightarrow> None
         | Some b2 \<Rightarrow> Some (b2\<lparr>head := increment b2 (head b2)\<rparr>))"

section \<open>Element transfers\<close>

text \<open>
  The byte offset \<^verbatim>\<open>elementIndex * (b->width)\<close> into the caller's memory, a product in
  \<^verbatim>\<open>unsigned int\<close>. The loop counters stay below \<^verbatim>\<open>l\<close> and \<^verbatim>\<open>b->width\<close>, so they never wrap
  and are natural numbers here.
\<close>

definition elem_off :: "buffer_t \<Rightarrow> nat \<Rightarrow> int" where
  "elem_off b elementIndex = int (unat (word_of_nat elementIndex * ucast (width b) :: 32 word))"

text \<open>
  Where the two nested \<^verbatim>\<open>for\<close> loops of a transfer end: after the last element, or in the
  \<^verbatim>\<open>else\<close> branch at some \<^verbatim>\<open>elementIndex\<close> and \<^verbatim>\<open>byteIndex\<close>.
\<close>

datatype stop = Finished | Stopped nat nat

text \<open>The loops of \<^verbatim>\<open>pushToBuffer\<close>, started at \<^verbatim>\<open>elementIndex = e\<close> and \<^verbatim>\<open>byteIndex = k\<close>.
  The byte counter stays below \<^verbatim>\<open>b->width\<close>, an \<^verbatim>\<open>unsigned char\<close>, hence below 256.\<close>

function push_loop :: "buffer_t \<Rightarrow> memory \<Rightarrow> nat \<Rightarrow> nat \<Rightarrow> nat \<Rightarrow> (buffer_t \<times> stop) option" where
  "push_loop b d l e k =
     (if e < l then
        if k < unat (width b) then
          if \<not> isBufferFull b \<or> overwrite b then
            (case pushByte b (d (elem_off b e + int k)) of None \<Rightarrow> None
             | Some b' \<Rightarrow> push_loop b' d l e (k + 1))
          else Some (b, Stopped e k)
        else push_loop b d l (e + 1) 0
      else Some (b, Finished))"
  by pat_completeness auto
termination
proof -
  have below: "k < unat w \<Longrightarrow> 255 - k < 256 - k" for k :: nat and w :: "8 word"
    using unsigned_less [of w, where 'a = nat] by simp
  show ?thesis
    by (relation "measures [\<lambda>(b, d, l, e, k). l - e, \<lambda>(b, d, l, e, k). 256 - k]")
       (auto intro: below)
qed

declare push_loop.simps [simp del]

text \<open>
  The loop \<^verbatim>\<open>for (failedbytes = byteIndex; failedbytes > 0; failedbytes--)\<close> of
  \<^verbatim>\<open>pushToBuffer\<close>, which steps the head cursor back.
\<close>

primrec undo_push :: "buffer_t \<Rightarrow> nat \<Rightarrow> buffer_t" where
  "undo_push b 0 = b"
| "undo_push b (Suc failedbytes) = undo_push (b\<lparr>head := decrement b (head b)\<rparr>) failedbytes"

definition pushToBuffer :: "buffer_t \<Rightarrow> memory \<Rightarrow> 32 word \<Rightarrow> (buffer_t \<times> 32 word) option" where
  "pushToBuffer b d l =
     (case push_loop b d (unat l) 0 0 of None \<Rightarrow> None
      | Some (b', Finished) \<Rightarrow> Some (b', 0)
      | Some (b', Stopped elementIndex byteIndex) \<Rightarrow>
          Some (undo_push b' byteIndex, l - word_of_nat elementIndex))"

text \<open>The loops of \<^verbatim>\<open>popFromBuffer\<close>; the popped bytes are written into the caller's memory.\<close>

function pop_loop :: "buffer_t \<Rightarrow> memory \<Rightarrow> nat \<Rightarrow> nat \<Rightarrow> nat \<Rightarrow> (buffer_t \<times> memory \<times> stop) option" where
  "pop_loop b d l e k =
     (if e < l then
        if k < unat (width b) then
          if \<not> isBufferEmpty b then
            if stack b then
              (case popByte b of None \<Rightarrow> None
               | Some (v, b') \<Rightarrow> pop_loop b' (d(elem_off b (e + 1) - 1 - int k := v)) l e (k + 1))
            else
              (case popByte b of None \<Rightarrow> None
               | Some (v, b') \<Rightarrow> pop_loop b' (d(elem_off b e + int k := v)) l e (k + 1))
          else Some (b, d, Stopped e k)
        else pop_loop b d l (e + 1) 0
      else Some (b, d, Finished))"
  by pat_completeness auto
termination
proof -
  have below: "k < unat w \<Longrightarrow> 255 - k < 256 - k" for k :: nat and w :: "8 word"
    using unsigned_less [of w, where 'a = nat] by simp
  show ?thesis
    by (relation "measures [\<lambda>(b, d, l, e, k). l - e, \<lambda>(b, d, l, e, k). 256 - k]")
       (auto intro: below)
qed

declare pop_loop.simps [simp del]

text \<open>
  The loop \<^verbatim>\<open>for (failedbytes = byteIndex; failedbytes > 0; failedbytes--)\<close> of
  \<^verbatim>\<open>popFromBuffer\<close>, which pushes the byte at
  \<^verbatim>\<open>d + elementIndex * b->width + failedbytes\<close> each time round.
\<close>

primrec undo_pop :: "buffer_t \<Rightarrow> memory \<Rightarrow> nat \<Rightarrow> nat \<Rightarrow> buffer_t option" where
  "undo_pop b d e 0 = Some b"
| "undo_pop b d e (Suc n) =
     (case pushByte b (d (elem_off b e + int (Suc n))) of None \<Rightarrow> None
      | Some b' \<Rightarrow> undo_pop b' d e n)"

definition popFromBuffer :: "buffer_t \<Rightarrow> memory \<Rightarrow> 32 word \<Rightarrow> (buffer_t \<times> memory \<times> 32 word) option" where
  "popFromBuffer b d l =
     (case pop_loop b d (unat l) 0 0 of None \<Rightarrow> None
      | Some (b', d', Finished) \<Rightarrow> Some (b', d', 0)
      | Some (b', d', Stopped elementIndex byteIndex) \<Rightarrow>
          (case undo_pop b' d' elementIndex byteIndex of None \<Rightarrow> None
           | Some b'' \<Rightarrow> Some (b'', d', l - word_of_nat elementIndex)))"

section \<open>Caller memory and example buffers\<close>

text \<open>A byte array of the caller placed at \<^verbatim>\<open>d\<close>; the memory around it reads as zero.\<close>

definition mem_of :: "byte list \<Rightarrow> memory" where
  "mem_of xs i = (if 0 \<le> i \<and> i < int (length xs) then xs ! nat i else 0)"

text \<open>The first \<open>n\<close> bytes at \<^verbatim>\<open>d\<close>.\<close>

definition bytes_at :: "memory \<Rightarrow> nat \<Rightarrow> byte list" where
  "bytes_at d n = map (\<lambda>i. d (int i)) [0..<n]"

text \<open>The four bytes of a 32-bit \<^verbatim>\<open>int\<close>, least significant byte first.\<close>

definition int_le :: "32 word \<Rightarrow> byte list" where
  "int_le x = [ucast x, ucast (drop_bit 8 x), ucast (drop_bit 16 x), ucast (drop_bit 24 x)]"

text \<open>
  A queue of capacity 1 for two-byte elements under the drop policy, after three pushes of
  the element \<open>[1, 2]\<close> with a pop after each of the first two: the cursors have wrapped
  around the three ring positions and the buffer holds one element.
\<close>

definition wrapped_buffer :: buffer_t where
  "wrapped_buffer =
     \<lparr> data = [2, 1, 2, 0], head = 0, tail = 1, depth = 2, width = 2, behavior = 0x3F \<rparr>"

text \<open>The buffer that \<^verbatim>\<open>newBuffer(3, 4, B_FIFO & B_DROP)\<close> returns.\<close>

definition fresh_buffer :: buffer_t where
  "fresh_buffer =
     \<lparr> data = replicate 16 0, head = 0, tail = 0, depth = 4, width = 4, behavior = 0x3F \<rparr>"

section \<open>The specification's slot-sized steps\<close>

text \<open>
  Follows the spec's words, not the source: \<open>advance\<close> moves a cursor to the next slot, one
  element width further, and wraps from the last slot to slot 0.
\<close>

definition spec_advance :: "buffer_t \<Rightarrow> nat \<Rightarrow> nat" where
  "spec_advance b cursor = (if cursor < last_off b then cursor + unat (width b) else 0)"

text \<open>
  Follows the spec's words, not the source: \<open>retreat\<close> moves a cursor to the previous slot
  and wraps from slot 0 to the last slot.
\<close>

definition spec_retreat :: "buffer_t \<Rightarrow> nat \<Rightarrow> nat" where
  "spec_retreat b cursor = (if cursor > 0 then cursor - unat (width b) else last_off b)"

text \<open>
  Follows the spec's words, not the source: the buffer is full when the slot one past
  \<open>head\<close>, with wraparound, is \<open>tail\<close>, or \<open>tail\<close> is at the start of the storage and
  \<open>head\<close> at the last slot.
\<close>

definition spec_isFull :: "buffer_t \<Rightarrow> bool" where
  "spec_isFull b = (spec_advance b (head b) = tail b \<or> (tail b = 0 \<and> head b = last_off b))"

section \<open>The ring as a sequence of bytes\<close>

text \<open>The cursors lie on the ring: neither is beyond the last position.\<close>

definition cursors_ok :: "buffer_t \<Rightarrow> bool" where
  "cursors_ok b = (head b \<le> last_off b \<and> tail b \<le> last_off b)"

text \<open>Every position of the ring is a byte of the allocated storage.\<close>

definition storage_ok :: "buffer_t \<Rightarrow> bool" where
  "storage_ok b = (last_off b < length (data b))"

text \<open>The number of occupied bytes: the distance from \<open>tail\<close> to \<open>head\<close> around the ring.\<close>

definition occupied :: "buffer_t \<Rightarrow> nat" where
  "occupied b = (if tail b \<le> head b then head b - tail b else head b + last_off b + 1 - tail b)"

text \<open>The position \<open>i\<close> bytes after \<open>tail\<close>, and the occupied bytes from oldest to newest.\<close>

definition ring_pos :: "buffer_t \<Rightarrow> nat \<Rightarrow> nat" where
  "ring_pos b i = (tail b + i) mod (last_off b + 1)"

definition contents :: "buffer_t \<Rightarrow> byte list" where
  "contents b = map (\<lambda>i. data b ! ring_pos b i) [0..<occupied b]"

text \<open>What no transfer changes: the configuration and the size of the storage.\<close>

definition same_shape :: "buffer_t \<Rightarrow> buffer_t \<Rightarrow> bool" where
  "same_shape b b' = (depth b' = depth b \<and> width b' = width b \<and> behavior b' = behavior b
      \<and> length (data b') = length (data b))"

text \<open>
  The buffer after \<^verbatim>\<open>pushByte\<close> has taken the first \<open>j\<close> bytes that \<^verbatim>\<open>pushToBuffer\<close> reads
  from \<^verbatim>\<open>d\<close>: byte \<open>j\<close> is byte \<open>j mod width\<close> of element \<open>j div width\<close>.
\<close>

primrec pushed :: "buffer_t \<Rightarrow> memory \<Rightarrow> nat \<Rightarrow> buffer_t option" where
  "pushed b d 0 = Some b"
| "pushed b d (Suc j) =
     (case pushed b d j of None \<Rightarrow> None
      | Some s \<Rightarrow> pushByte s (d (elem_off b (j div unat (width b)) + int (j mod unat (width b)))))"

text \<open>
  A queue for two-byte elements under the drop policy with four ring positions free of
  the sentinel, holding three bytes: one element and a half.
\<close>

definition partial_buffer :: buffer_t where
  "partial_buffer =
     \<lparr> data = [1, 2, 3, 0, 0, 0], head = 3, tail = 0, depth = 3, width = 2, behavior = 0x3F \<rparr>"

text \<open>
  The buffers that calls of \<^verbatim>\<open>pushToBuffer\<close> and \<^verbatim>\<open>popFromBuffer\<close> lead to from a buffer
  \<open>b0\<close>. A call that leaves the storage has no result and leads nowhere.
\<close>

inductive reached :: "buffer_t \<Rightarrow> buffer_t \<Rightarrow> bool" for b0 :: buffer_t where
  start: "reached b0 b0"
| push: "reached b0 b \<Longrightarrow> pushToBuffer b d l = Some (b', r) \<Longrightarrow> reached b0 b'"
| pop: "reached b0 b \<Longrightarrow> popFromBuffer b d l = Some (b', d', r) \<Longrightarrow> reached b0 b'"

text \<open>The fresh buffer after one call has pushed the elements 10, 20 and 30: it is full.\<close>

definition full_buffer :: buffer_t where
  "full_buffer =
     \<lparr> data = [10, 0, 0, 0, 20, 0, 0, 0, 30, 0, 0, 0, 0, 0, 0, 0], head = 12, tail = 0,
       depth = 4, width = 4, behavior = 0x3F \<rparr>"

text \<open>
  The buffer that \<^verbatim>\<open>newBuffer(UINT_MAX, 1, B_FIFO & B_DROP)\<close> returns when \<^verbatim>\<open>calloc\<close> gives
  a pointer for its request of \<^verbatim>\<open>UINT_MAX + 1 = 0\<close> members.
\<close>

definition max_capacity_buffer :: buffer_t where
  "max_capacity_buffer =
     \<lparr> data = [], head = 0, tail = 0, depth = 0, width = 1, behavior = 0x3F \<rparr>"

text \<open>
  The buffer that \<^verbatim>\<open>newBuffer(1431655766, 3, B_FIFO & B_DROP)\<close> returns: the product
  \<^verbatim>\<open>1431655766 * 3\<close> is \<open>2 ^ 32 + 2\<close> and wraps to 2.
\<close>

definition wrapped_ring_buffer :: buffer_t where
  "wrapped_ring_buffer =
     \<lparr> data = replicate 4294967301 0, head = 0, tail = 0, depth = 1431655767, width = 3,
       behavior = 0x3F \<rparr>"

section \<open>Transfers of whole elements\<close>

text \<open>The first \<open>l\<close> elements of \<open>w\<close> bytes in the caller's memory at \<^verbatim>\<open>d\<close>.\<close>

definition elements :: "memory \<Rightarrow> nat \<Rightarrow> nat \<Rightarrow> byte list list" where
  "elements d w l = map (\<lambda>e. map (\<lambda>k. d (int (e * w + k))) [0..<w]) [0..<l]"

text \<open>
  A caller pushing with one call of \<^verbatim>\<open>pushToBuffer\<close> after the other, each from its own
  memory and with its own count; the result is the buffer and the values the calls
  returned.
\<close>

fun push_calls :: "buffer_t \<Rightarrow> (memory \<times> 32 word) list \<Rightarrow> (buffer_t \<times> 32 word list) option" where
  "push_calls b [] = Some (b, [])"
| "push_calls b ((d, l) # calls) =
     (case pushToBuffer b d l of None \<Rightarrow> None
      | Some (b', r) \<Rightarrow>
          (case push_calls b' calls of None \<Rightarrow> None
           | Some (b'', rs) \<Rightarrow> Some (b'', r # rs)))"

text \<open>The elements these calls were asked to push: how many, which, and their bytes.\<close>

definition pushed_count :: "(memory \<times> 32 word) list \<Rightarrow> nat" where
  "pushed_count calls = sum_list (map (\<lambda>(d, l). unat l) calls)"

definition pushed_elements :: "nat \<Rightarrow> (memory \<times> 32 word) list \<Rightarrow> byte list list" where
  "pushed_elements w calls = concat (map (\<lambda>(d, l). elements d w (unat l)) calls)"

definition pushed_bytes :: "nat \<Rightarrow> (memory \<times> 32 word) list \<Rightarrow> byte list" where
  "pushed_bytes w calls = concat (map (\<lambda>(d, l). map (\<lambda>j. d (int j)) [0..<unat l * w]) calls)"

text \<open>A byte list cut into \<open>l\<close> pieces of \<open>w\<close> bytes.\<close>

definition chunks :: "byte list \<Rightarrow> nat \<Rightarrow> nat \<Rightarrow> byte list list" where
  "chunks c w l = map (\<lambda>e. map (\<lambda>k. c ! (e * w + k)) [0..<w]) [0..<l]"

text \<open>
  The address \<^verbatim>\<open>popFromBuffer\<close> writes the byte to that it pops at step \<open>j\<close> of its loops
  (element \<open>j div width\<close>, byte \<open>j mod width\<close>), and the byte it pops there when the loops
  started at step \<open>j0\<close>.
\<close>

definition dest :: "buffer_t \<Rightarrow> nat \<Rightarrow> int" where
  "dest b j =
     (if stack b then elem_off b (j div unat (width b) + 1) - 1 - int (j mod unat (width b))
      else elem_off b (j div unat (width b)) + int (j mod unat (width b)))"

definition popped :: "buffer_t \<Rightarrow> nat \<Rightarrow> nat \<Rightarrow> byte" where
  "popped b j0 j =
     (if stack b then contents b ! (occupied b - 1 - (j - j0)) else contents b ! (j - j0))"

text \<open>The offset that step \<open>j\<close> of a pop writes to when no product wraps.\<close>

definition mirror :: "buffer_t \<Rightarrow> nat \<Rightarrow> nat" where
  "mirror b j =
     (if stack b
      then (j div unat (width b)) * unat (width b) + (unat (width b) - 1 - j mod unat (width b))
      else j)"

text \<open>
  A queue and a stack for four-byte elements that hold two bytes, half an element. No
  sequence of calls leads to them from a buffer whose ring size did not wrap.
\<close>

definition half_element_queue :: buffer_t where
  "half_element_queue =
     \<lparr> data = [0xA1, 0xA2, 0, 0, 0, 0, 0, 0, 0, 0, 0, 0], head = 2, tail = 0, depth = 3,
       width = 4, behavior = 0x3F \<rparr>"

definition half_element_stack :: buffer_t where
  "half_element_stack =
     \<lparr> data = [0xA1, 0xA2, 0, 0, 0, 0, 0, 0, 0, 0, 0, 0], head = 2, tail = 0, depth = 3,
       width = 4, behavior = 0xBF \<rparr>"

text \<open>
  The buffer that \<^verbatim>\<open>newBuffer(2147483648, 2, B_FIFO & B_DROP)\<close> returns: the product
  \<^verbatim>\<open>2147483648 * 2\<close> wraps to 0.
\<close>

definition zero_ring_buffer :: buffer_t where
  "zero_ring_buffer =
     \<lparr> data = replicate 4294967298 0, head = 0, tail = 0, depth = 2147483649, width = 2,
       behavior = 0x3F \<rparr>"

text \<open>
  The buffer that \<^verbatim>\<open>newBuffer(1431655766, 3, B_FIFO & B_OVERWRITE)\<close> returns: as
  \<open>wrapped_ring_buffer\<close>, under the overwrite policy.
\<close>

definition wrapped_overwrite_buffer :: buffer_t where
  "wrapped_overwrite_buffer =
     \<lparr> data = replicate 4294967301 0, head = 0, tail = 0, depth = 1431655767, width = 3,
       behavior = 0x7F \<rparr>"

text \<open>The buffer that \<^verbatim>\<open>newBuffer(3, 4, B_FILO & B_DROP)\<close> returns.\<close>

definition fresh_stack :: buffer_t where
  "fresh_stack =
     \<lparr> data = replicate 16 0, head = 0, tail = 0, depth = 4, width = 4, behavior = 0xBF \<rparr>"

text \<open>
  The buffer that \<^verbatim>\<open>newBuffer(3, 0, B_FIFO & B_DROP)\<close> returns when \<^verbatim>\<open>calloc\<close> gives a
  pointer for its request of four members of no bytes.
\<close>

definition zero_width_buffer :: buffer_t where
  "zero_width_buffer =
     \<lparr> data = [], head = 0, tail = 0, depth = 4, width = 0, behavior = 0x3F \<rparr>"

section \<open>Word arithmetic of the sizes\<close>

lemma unat_ucast_width: "unat (ucast (w :: 8 word) :: 32 word) = unat w"
proof -
  have "unat w < 2 ^ 32"
    using unsigned_less [of w, where 'a = nat] by simp
  then show ?thesis
    by (simp add: unsigned_ucast_eq take_bit_nat_eq_self)
qed

lemma unat_elements_plus_1:
  "unat n + 1 < 2 ^ 32 \<Longrightarrow> unat (n + 1 :: 32 word) = unat n + 1"
  by (simp add: unat_word_ariths)

lemma unat_plus_1_nowrap:
  assumes "n + 1 \<noteq> 0"
  shows "unat (n + 1 :: 32 word) = unat n + 1"
proof -
  have lt: "unat n < 2 ^ 32"
    using unsigned_less [of n, where 'a = nat] by simp
  have "unat n + 1 < 2 ^ 32"
  proof (rule ccontr)
    assume "\<not> unat n + 1 < 2 ^ 32"
    with lt have "unat n + 1 = 2 ^ 32" by simp
    then have "unat (n + 1) = 0" by (simp add: unat_word_ariths)
    with assms show False by (simp add: unat_eq_0)
  qed
  then show ?thesis by (rule unat_elements_plus_1)
qed

lemma unat_ring_size:
  "unat n * unat w < 2 ^ 32 \<Longrightarrow> unat (n * ucast (w :: 8 word) :: 32 word) = unat n * unat w"
  using unat_mult_lem [of n "ucast w :: 32 word"] by (simp add: unat_ucast_width)

section \<open>The example buffers are reachable\<close>

lemma wrapped_buffer_reached:
  "Option.bind (newBuffer True True 1 2 (B_QUEUE AND B_DROP)) (\<lambda>b0.
   Option.bind (pushToBuffer b0 (mem_of [1, 2]) 1) (\<lambda>(b1, r1).
   Option.bind (popFromBuffer b1 (mem_of []) 1) (\<lambda>(b2, d2, r2).
   Option.bind (pushToBuffer b2 (mem_of [1, 2]) 1) (\<lambda>(b3, r3).
   Option.bind (popFromBuffer b3 (mem_of []) 1) (\<lambda>(b4, d4, r4).
   Option.bind (pushToBuffer b4 (mem_of [1, 2]) 1) (\<lambda>(b5, r5).
     Some ([r1, r2, r3, r4, r5], b5)))))))
   = Some ([0, 0, 0, 0, 0], wrapped_buffer)"
  by code_simp

lemma fresh_buffer_reached: "newBuffer True True 3 4 (B_FIFO AND B_DROP) = Some fresh_buffer"
  by (simp add: newBuffer_def fresh_buffer_def B_FIFO_def B_DROP_def)

section \<open>Cursors, occupancy and contents\<close>

lemma same_shape_simps:
  "same_shape b b' \<Longrightarrow> last_off b' = last_off b"
  "same_shape b b' \<Longrightarrow> stack b' = stack b"
  "same_shape b b' \<Longrightarrow> overwrite b' = overwrite b"
  "same_shape b b' \<Longrightarrow> elem_off b' e = elem_off b e"
  "same_shape b b' \<Longrightarrow> storage_ok b' = storage_ok b"
  by (simp_all add: same_shape_def last_off_def stack_def overwrite_def elem_off_def storage_ok_def)

lemma same_shape_refl: "same_shape b b"
  by (simp add: same_shape_def)

lemma same_shape_trans: "same_shape a b \<Longrightarrow> same_shape b c \<Longrightarrow> same_shape a c"
  by (simp add: same_shape_def)

lemma last_off_update [simp]:
  "last_off (b\<lparr>head := h\<rparr>) = last_off b"
  "last_off (b\<lparr>tail := t\<rparr>) = last_off b"
  "last_off (b\<lparr>data := x\<rparr>) = last_off b"
  by (simp_all add: last_off_def)

lemma step_update [simp]:
  "increment (b\<lparr>head := h\<rparr>) = increment b"
  "increment (b\<lparr>tail := t\<rparr>) = increment b"
  "increment (b\<lparr>data := x\<rparr>) = increment b"
  "decrement (b\<lparr>head := h\<rparr>) = decrement b"
  "decrement (b\<lparr>tail := t\<rparr>) = decrement b"
  "decrement (b\<lparr>data := x\<rparr>) = decrement b"
  by (simp_all add: increment_def decrement_def fun_eq_iff)

lemma occupied_le: "cursors_ok b \<Longrightarrow> occupied b \<le> last_off b"
  by (auto simp: cursors_ok_def occupied_def)

lemma full_iff_occupied: "cursors_ok b \<Longrightarrow> isBufferFull b \<longleftrightarrow> occupied b = last_off b"
  by (auto simp: cursors_ok_def occupied_def isBufferFull_def)

lemma empty_iff_occupied: "cursors_ok b \<Longrightarrow> isBufferEmpty b \<longleftrightarrow> occupied b = 0"
  by (auto simp: cursors_ok_def occupied_def isBufferEmpty_def)

lemma ring_pos_lt: "cursors_ok b \<Longrightarrow> i < occupied b \<Longrightarrow>
   ring_pos b i = (if tail b + i \<le> last_off b then tail b + i else tail b + i - (last_off b + 1))"
  by (auto simp: ring_pos_def cursors_ok_def occupied_def le_mod_geq split: if_splits)

lemma ring_pos_occupied: "cursors_ok b \<Longrightarrow> ring_pos b (occupied b) = head b"
  by (auto simp: ring_pos_def cursors_ok_def occupied_def le_mod_geq split: if_splits)

lemma ring_pos_ne_head: "cursors_ok b \<Longrightarrow> i < occupied b \<Longrightarrow> ring_pos b i \<noteq> head b"
  by (auto simp: ring_pos_lt) (auto simp: cursors_ok_def occupied_def split: if_splits)

lemma tl_map_upt: "tl (map f [0..<n]) = map (\<lambda>i. f (Suc i)) [0..<n - 1]"
proof (cases n)
  case 0
  then show ?thesis by simp
next
  case (Suc m)
  have "[0..<Suc m] = 0 # map Suc [0..<m]"
    by (simp only: map_Suc_upt upt_conv_Cons [of 0 "Suc m"] zero_less_Suc)
  with Suc show ?thesis by (simp add: comp_def)
qed

lemma butlast_map_upt: "butlast (map f [0..<n]) = map f [0..<n - 1]"
  by (cases n) (simp_all add: map_butlast [symmetric])

lemma pushByte_Some:
  "cursors_ok b \<Longrightarrow> storage_ok b \<Longrightarrow> \<exists>b'. pushByte b v = Some b'"
  by (simp add: pushByte_def store_def cursors_ok_def storage_ok_def increment_def)

lemma popByte_Some:
  "cursors_ok b \<Longrightarrow> storage_ok b \<Longrightarrow> \<exists>v b'. popByte b = Some (v, b')"
  by (auto simp: popByte_def load_def cursors_ok_def storage_ok_def decrement_def Let_def)

lemma pushByte_shape:
  "pushByte b v = Some b' \<Longrightarrow> same_shape b b'"
  by (auto simp: pushByte_def store_def same_shape_def Let_def split: if_splits)

lemma popByte_shape:
  "popByte b = Some (v, b') \<Longrightarrow> same_shape b b' \<and> data b' = data b"
  by (auto simp: popByte_def load_def same_shape_def Let_def split: if_splits)

lemma pushByte_cursors_ok:
  "pushByte b v = Some b' \<Longrightarrow> cursors_ok b \<Longrightarrow> cursors_ok b'"
  by (auto simp: pushByte_def store_def cursors_ok_def increment_def Let_def split: if_splits)

lemma popByte_cursors_ok:
  "popByte b = Some (v, b') \<Longrightarrow> cursors_ok b \<Longrightarrow> cursors_ok b'"
  by (auto simp: popByte_def load_def cursors_ok_def increment_def decrement_def Let_def
      split: if_splits)

lemma pushByte_room:
  assumes push: "pushByte b v = Some b'" and ok: "cursors_ok b" and nf: "\<not> isBufferFull b"
  shows "tail b' = tail b \<and> occupied b' = occupied b + 1 \<and> contents b' = contents b @ [v]"
proof -
  let ?b' = "b\<lparr>data := (data b)[head b := v], head := increment b (head b)\<rparr>"
  from push nf have hd_lt: "head b < length (data b)" and b': "b' = ?b'"
    by (auto simp: pushByte_def store_def Let_def split: if_splits)
  have occ': "occupied ?b' = occupied b + 1"
    using ok nf by (auto simp: occupied_def increment_def cursors_ok_def isBufferFull_def)
  have pos: "ring_pos ?b' i = ring_pos b i" for i
    by (simp add: ring_pos_def)
  have "contents ?b' = map (\<lambda>i. (data b)[head b := v] ! ring_pos b i) [0..<occupied b]
                       @ [(data b)[head b := v] ! ring_pos b (occupied b)]"
    by (simp add: contents_def occ' pos)
  also have "map (\<lambda>i. (data b)[head b := v] ! ring_pos b i) [0..<occupied b] = contents b"
  proof -
    have "head b \<noteq> ring_pos b i" if "i < occupied b" for i
      using ring_pos_ne_head [OF ok that] by simp
    then show ?thesis by (simp add: contents_def)
  qed
  also have "(data b)[head b := v] ! ring_pos b (occupied b) = v"
    using hd_lt by (simp add: ring_pos_occupied [OF ok])
  finally have "contents ?b' = contents b @ [v]" .
  with b' occ' show ?thesis by simp
qed

lemma pushByte_overwrite_full:
  assumes push: "pushByte b v = Some b'" and ok: "cursors_ok b"
    and f: "isBufferFull b" and ov: "overwrite b"
  shows "occupied b' = occupied b"
proof -
  let ?b1 = "b\<lparr>tail := increment b (tail b)\<rparr>"
  let ?b' = "?b1\<lparr>data := (data b)[head b := v], head := increment b (head b)\<rparr>"
  from push f ov have b': "b' = ?b'"
    by (auto simp: pushByte_def store_def Let_def split: if_splits)
  have "occupied ?b' = occupied b"
    using ok f by (auto simp: occupied_def increment_def cursors_ok_def isBufferFull_def)
  with b' show ?thesis by simp
qed

lemma popByte_queue:
  assumes pop: "popByte b = Some (v, b')" and ok: "cursors_ok b"
    and ne: "\<not> isBufferEmpty b" and q: "\<not> stack b"
  shows "v = hd (contents b) \<and> occupied b' = occupied b - 1 \<and> contents b' = tl (contents b)"
proof -
  let ?b' = "b\<lparr>tail := increment b (tail b)\<rparr>"
  from pop q have v: "v = data b ! tail b" and b': "b' = ?b'"
    by (auto simp: popByte_def load_def split: if_splits)
  have occ_pos: "0 < occupied b"
    using ne empty_iff_occupied [OF ok] by simp
  have first: "hd (contents b) = data b ! tail b"
    using occ_pos ok by (simp add: contents_def hd_map upt_conv_Cons ring_pos_def cursors_ok_def)
  have occ': "occupied ?b' = occupied b - 1"
    using ok ne by (auto simp: occupied_def increment_def cursors_ok_def isBufferEmpty_def)
  have pos: "ring_pos ?b' i = ring_pos b (Suc i)" for i
  proof (cases "tail b < last_off b")
    case True
    then show ?thesis by (simp add: ring_pos_def increment_def)
  next
    case False
    with ok have "tail b = last_off b" by (simp add: cursors_ok_def)
    then have "tail b + Suc i = i + (last_off b + 1)" by simp
    then have "(tail b + Suc i) mod (last_off b + 1) = i mod (last_off b + 1)"
      by (simp only: mod_add_self2)
    with False show ?thesis by (simp add: ring_pos_def increment_def)
  qed
  have "contents ?b' = tl (contents b)"
    by (simp add: contents_def occ' pos tl_map_upt)
  with v b' first occ' show ?thesis by simp
qed

lemma popByte_stack:
  assumes pop: "popByte b = Some (v, b')" and ok: "cursors_ok b"
    and ne: "\<not> isBufferEmpty b" and s: "stack b"
  shows "v = last (contents b) \<and> tail b' = tail b \<and>
         occupied b' = occupied b - 1 \<and> contents b' = butlast (contents b)"
proof -
  let ?b' = "b\<lparr>head := decrement b (head b)\<rparr>"
  from pop s have v: "v = data b ! decrement b (head b)" and b': "b' = ?b'"
    by (auto simp: popByte_def load_def Let_def split: if_splits)
  have occ_pos: "0 < occupied b"
    using ne empty_iff_occupied [OF ok] by simp
  have ok': "cursors_ok ?b'"
    using ok by (auto simp: cursors_ok_def decrement_def)
  have occ': "occupied ?b' = occupied b - 1"
    using ok ne by (auto simp: occupied_def decrement_def cursors_ok_def isBufferEmpty_def)
  have pos: "ring_pos ?b' i = ring_pos b i" for i
    by (simp add: ring_pos_def)
  have "ring_pos ?b' (occupied ?b') = head ?b'"
    by (rule ring_pos_occupied [OF ok'])
  then have top: "ring_pos b (occupied b - 1) = decrement b (head b)"
    by (simp add: pos occ')
  have "last (contents b) = data b ! ring_pos b (occupied b - 1)"
    using occ_pos by (simp add: contents_def last_map last_upt)
  with top have lst: "last (contents b) = data b ! decrement b (head b)"
    by simp
  have "contents ?b' = map (\<lambda>i. data b ! ring_pos b i) [0..<occupied b - 1]"
    by (simp add: contents_def occ' pos)
  also have "\<dots> = butlast (contents b)"
    by (simp add: contents_def butlast_map_upt)
  finally have "contents ?b' = butlast (contents b)" .
  with v b' lst occ' show ?thesis by simp
qed

section \<open>The loops of \<^verbatim>\<open>pushToBuffer\<close>\<close>

lemma undo_push_funpow: "undo_push b k = b\<lparr>head := (decrement b ^^ k) (head b)\<rparr>"
  by (induction k arbitrary: b) (simp_all add: funpow_swap1)

lemma push_loop_done: "\<not> e < l \<Longrightarrow> push_loop b d l e k = Some (b, Finished)"
  by (simp add: push_loop.simps [of b d l e k])

lemma push_loop_next_elem:
  "e < l \<Longrightarrow> \<not> k < unat (width b) \<Longrightarrow> push_loop b d l e k = push_loop b d l (e + 1) 0"
  by (simp add: push_loop.simps [of b d l e k])

lemma push_loop_stop:
  "e < l \<Longrightarrow> k < unat (width b) \<Longrightarrow> isBufferFull b \<Longrightarrow> \<not> overwrite b \<Longrightarrow>
   push_loop b d l e k = Some (b, Stopped e k)"
  by (simp add: push_loop.simps [of b d l e k])

lemma push_loop_byte:
  "e < l \<Longrightarrow> k < unat (width b) \<Longrightarrow> \<not> isBufferFull b \<or> overwrite b \<Longrightarrow>
   push_loop b d l e k =
     (case pushByte b (d (elem_off b e + int k)) of None \<Rightarrow> None
      | Some b' \<Rightarrow> push_loop b' d l e (k + 1))"
  by (simp add: push_loop.simps [of b d l e k])

lemma push_loop_trace:
  assumes drop: "\<not> overwrite b0"
  shows "push_loop s d l e k = Some (s', st) \<Longrightarrow> same_shape b0 s \<Longrightarrow>
     k \<le> unat (width b0) \<Longrightarrow> e \<le> l \<Longrightarrow> (e = l \<longrightarrow> k = 0) \<Longrightarrow>
     pushed b0 d (e * unat (width b0) + k) = Some s \<Longrightarrow>
     \<exists>j. e * unat (width b0) + k \<le> j \<and> j \<le> l * unat (width b0) \<and> pushed b0 d j = Some s' \<and>
       (\<forall>i. e * unat (width b0) + k \<le> i \<and> i < j \<longrightarrow>
            (\<forall>t. pushed b0 d i = Some t \<longrightarrow> \<not> isBufferFull t)) \<and>
       (case st of Finished \<Rightarrow> j = l * unat (width b0)
        | Stopped e' k' \<Rightarrow> j < l * unat (width b0) \<and> e' = j div unat (width b0) \<and>
            k' = j mod unat (width b0) \<and> isBufferFull s')"
proof (induction s d l e k rule: push_loop.induct)
  case (1 b d l e k)
  let ?w = "unat (width b0)"
  let ?j0 = "e * ?w + k"
  have wb: "unat (width b) = ?w" and ovb: "\<not> overwrite b"
    using "1.prems"(2) drop by (simp_all add: same_shape_def overwrite_def)
  show ?case
  proof (cases "e < l")
    case False
    with "1.prems"(1) have "s' = b" "st = Finished" by (simp_all add: push_loop_done)
    moreover from False "1.prems"(4,5) have "e = l" "k = 0" by simp_all
    ultimately have "e = l" "k = 0" "s' = b" "st = Finished" by simp_all
    with "1.prems"(6) show ?thesis by (intro exI [of _ "l * ?w"]) auto
  next
    case el: True
    show ?thesis
    proof (cases "k < ?w")
      case False
      with "1.prems"(3) have kw: "k = ?w" by simp
      from False wb have nk: "\<not> k < unat (width b)" by simp
      have step: "push_loop b d l (e + 1) 0 = Some (s', st)"
        using "1.prems"(1) push_loop_next_elem [OF el nk] by simp
      have "\<exists>j. (e + 1) * ?w + 0 \<le> j \<and> j \<le> l * ?w \<and> pushed b0 d j = Some s' \<and>
         (\<forall>i. (e + 1) * ?w + 0 \<le> i \<and> i < j \<longrightarrow> (\<forall>t. pushed b0 d i = Some t \<longrightarrow> \<not> isBufferFull t)) \<and>
         (case st of Finished \<Rightarrow> j = l * ?w
          | Stopped e' k' \<Rightarrow> j < l * ?w \<and> e' = j div ?w \<and> k' = j mod ?w \<and> isBufferFull s')"
      proof (rule "1.IH"(2) [OF el _ step "1.prems"(2)])
        show "\<not> k < unat (width b)" using kw wb by simp
        show "0 \<le> ?w" by simp
        show "e + 1 \<le> l" using el by simp
        show "e + 1 = l \<longrightarrow> (0::nat) = 0" by simp
        show "pushed b0 d ((e + 1) * ?w + 0) = Some b"
          using "1.prems"(6) kw by (simp add: algebra_simps)
      qed
      then show ?thesis using kw by (simp add: algebra_simps)
    next
      case kw: True
      from kw wb have kb: "k < unat (width b)" by simp
      have j0_lt: "?j0 < l * ?w"
      proof -
        have "?j0 < (e + 1) * ?w" using kw by simp
        also have "\<dots> \<le> l * ?w" using el by (intro mult_le_mono1) simp
        finally show ?thesis .
      qed
      have dm: "?j0 div ?w = e" "?j0 mod ?w = k"
        using kw by simp_all
      show ?thesis
      proof (cases "isBufferFull b")
        case True
        with "1.prems"(1) push_loop_stop [OF el kb _ ovb]
        have "s' = b" "st = Stopped e k" by simp_all
        with "1.prems"(6) j0_lt dm True show ?thesis
          by (intro exI [of _ ?j0]) auto
      next
        case nf: False
        from nf have go: "\<not> isBufferFull b \<or> overwrite b" by simp
        from "1.prems"(1) push_loop_byte [OF el kb go] obtain b1 where
          pb: "pushByte b (d (elem_off b e + int k)) = Some b1" and
          step: "push_loop b1 d l e (k + 1) = Some (s', st)"
          by (auto split: option.splits)
        have sh1: "same_shape b0 b1"
          using pushByte_shape [OF pb] "1.prems"(2) by (rule same_shape_trans [rotated])
        have eo: "elem_off b0 e = elem_off b e"
          using same_shape_simps(4) [OF "1.prems"(2)] by simp
        have nxt: "pushed b0 d (e * ?w + (k + 1)) = Some b1"
          using "1.prems"(6) pb dm eo by simp
        have "\<exists>j. e * ?w + (k + 1) \<le> j \<and> j \<le> l * ?w \<and> pushed b0 d j = Some s' \<and>
           (\<forall>i. e * ?w + (k + 1) \<le> i \<and> i < j \<longrightarrow> (\<forall>t. pushed b0 d i = Some t \<longrightarrow> \<not> isBufferFull t)) \<and>
           (case st of Finished \<Rightarrow> j = l * ?w
            | Stopped e' k' \<Rightarrow> j < l * ?w \<and> e' = j div ?w \<and> k' = j mod ?w \<and> isBufferFull s')"
        proof (rule "1.IH"(1) [OF el _ _ pb step sh1])
          show "k < unat (width b)" using kw wb by simp
          show "\<not> isBufferFull b \<or> overwrite b" using nf by simp
          show "k + 1 \<le> ?w" using kw by simp
          show "e \<le> l" using el by simp
          show "e = l \<longrightarrow> k + 1 = 0" using el by simp
          show "pushed b0 d (e * ?w + (k + 1)) = Some b1" by (rule nxt)
        qed
        then obtain j where j: "e * ?w + (k + 1) \<le> j" "j \<le> l * ?w" "pushed b0 d j = Some s'"
          "\<forall>i. e * ?w + (k + 1) \<le> i \<and> i < j \<longrightarrow> (\<forall>t. pushed b0 d i = Some t \<longrightarrow> \<not> isBufferFull t)"
          "case st of Finished \<Rightarrow> j = l * ?w
            | Stopped e' k' \<Rightarrow> j < l * ?w \<and> e' = j div ?w \<and> k' = j mod ?w \<and> isBufferFull s'"
          by blast
        have "\<forall>i. ?j0 \<le> i \<and> i < j \<longrightarrow> (\<forall>t. pushed b0 d i = Some t \<longrightarrow> \<not> isBufferFull t)"
        proof (intro allI impI)
          fix i t
          assume i: "?j0 \<le> i \<and> i < j" and t: "pushed b0 d i = Some t"
          show "\<not> isBufferFull t"
          proof (cases "i = ?j0")
            case True
            with t "1.prems"(6) nf show ?thesis by simp
          next
            case False
            with i have "e * ?w + (k + 1) \<le> i \<and> i < j" by simp
            with j(4) t show ?thesis by blast
          qed
        qed
        with j show ?thesis by (intro exI [of _ j]) simp
      qed
    qed
  qed
qed

lemma failed_count: "e \<le> unat l \<Longrightarrow> unat (l - word_of_nat e :: 32 word) = unat l - e"
proof -
  assume e: "e \<le> unat l"
  then have u: "unat (word_of_nat e :: 32 word) = e"
    by (rule le_unat_uoi)
  with e have "(word_of_nat e :: 32 word) \<le> l"
    by (simp add: word_le_nat_alt)
  then show ?thesis
    using u by (simp add: unat_sub)
qed


section \<open>Transfers keep the cursors on the ring\<close>

lemma pop_loop_done: "\<not> e < l \<Longrightarrow> pop_loop b d l e k = Some (b, d, Finished)"
  by (simp add: pop_loop.simps [of b d l e k])

lemma pop_loop_next_elem:
  "e < l \<Longrightarrow> \<not> k < unat (width b) \<Longrightarrow> pop_loop b d l e k = pop_loop b d l (e + 1) 0"
  by (simp add: pop_loop.simps [of b d l e k])

lemma pop_loop_stop:
  "e < l \<Longrightarrow> k < unat (width b) \<Longrightarrow> isBufferEmpty b \<Longrightarrow>
   pop_loop b d l e k = Some (b, d, Stopped e k)"
  by (simp add: pop_loop.simps [of b d l e k])

lemma pop_loop_byte:
  "e < l \<Longrightarrow> k < unat (width b) \<Longrightarrow> \<not> isBufferEmpty b \<Longrightarrow>
   pop_loop b d l e k =
     (case popByte b of None \<Rightarrow> None
      | Some (v, b') \<Rightarrow>
          pop_loop b' (d((if stack b then elem_off b (e + 1) - 1 - int k else elem_off b e + int k) := v))
            l e (k + 1))"
  by (simp add: pop_loop.simps [of b d l e k] split: option.splits)

text \<open>Elements of no bytes: the inner loops never run, and a transfer changes nothing.\<close>

lemma push_loop_no_width: "width b = 0 \<Longrightarrow> push_loop b d l e 0 = Some (b, Finished)"
proof (induction "l - e" arbitrary: e)
  case 0
  then show ?case by (simp add: push_loop_done)
next
  case (Suc m)
  then have "e < l" and "m = l - (e + 1)" by simp_all
  with Suc show ?case by (simp add: push_loop_next_elem)
qed

lemma pop_loop_no_width: "width b = 0 \<Longrightarrow> pop_loop b d l e 0 = Some (b, d, Finished)"
proof (induction "l - e" arbitrary: e)
  case 0
  then show ?case by (simp add: pop_loop_done)
next
  case (Suc m)
  then have "e < l" and "m = l - (e + 1)" by simp_all
  with Suc show ?case by (simp add: pop_loop_next_elem)
qed

lemma pushToBuffer_no_width: "width b = 0 \<Longrightarrow> pushToBuffer b d l = Some (b, 0)"
  by (simp add: pushToBuffer_def push_loop_no_width)

lemma popFromBuffer_no_width: "width b = 0 \<Longrightarrow> popFromBuffer b d l = Some (b, d, 0)"
  by (simp add: popFromBuffer_def pop_loop_no_width)

lemma push_calls_no_width:
  "width b = 0 \<Longrightarrow> push_calls b calls = Some (b, map (\<lambda>c. 0) calls)"
  by (induction calls) (auto simp: pushToBuffer_no_width)

lemma elements_no_width: "elements d 0 l = replicate l []"
  by (simp add: elements_def map_replicate_const)

lemma pushed_elements_no_width: "pushed_elements 0 calls = replicate (pushed_count calls) []"
  by (induction calls)
     (auto simp: pushed_elements_def pushed_count_def elements_no_width replicate_add)

lemma push_loop_safe:
  "cursors_ok s \<Longrightarrow> storage_ok s \<Longrightarrow>
   \<exists>s' st. push_loop s d l e k = Some (s', st) \<and> cursors_ok s' \<and> same_shape s s'"
proof (induction s d l e k rule: push_loop.induct)
  case (1 b d l e k)
  show ?case
  proof (cases "e < l")
    case False
    with "1.prems" show ?thesis by (simp add: push_loop_done same_shape_refl)
  next
    case el: True
    show ?thesis
    proof (cases "k < unat (width b)")
      case False
      from "1.IH"(2) [OF el False "1.prems"] push_loop_next_elem [OF el False]
      show ?thesis by simp
    next
      case kb: True
      show ?thesis
      proof (cases "\<not> isBufferFull b \<or> overwrite b")
        case False
        with "1.prems" push_loop_stop [OF el kb] show ?thesis
          by (simp add: same_shape_refl)
      next
        case go: True
        from pushByte_Some [OF "1.prems"] obtain b1 where
          pb: "pushByte b (d (elem_off b e + int k)) = Some b1" by blast
        have ok1: "cursors_ok b1" by (rule pushByte_cursors_ok [OF pb "1.prems"(1)])
        have sh1: "same_shape b b1" by (rule pushByte_shape [OF pb])
        have st1: "storage_ok b1"
          using same_shape_simps(5) [OF sh1] "1.prems"(2) by simp
        from "1.IH"(1) [OF el kb go pb ok1 st1] obtain s' st where
          "push_loop b1 d l e (k + 1) = Some (s', st)" "cursors_ok s'" "same_shape b1 s'"
          by blast
        with push_loop_byte [OF el kb go] pb sh1 show ?thesis
          by (auto intro: same_shape_trans)
      qed
    qed
  qed
qed

lemma push_loop_keeps:
  "push_loop s d l e k = Some (s', st) \<Longrightarrow> cursors_ok s \<Longrightarrow> cursors_ok s' \<and> same_shape s s'"
proof (induction s d l e k rule: push_loop.induct)
  case (1 b d l e k)
  show ?case
  proof (cases "e < l")
    case False
    with "1.prems" show ?thesis by (simp add: push_loop_done same_shape_refl)
  next
    case el: True
    show ?thesis
    proof (cases "k < unat (width b)")
      case False
      from "1.prems"(1) push_loop_next_elem [OF el False]
      have "push_loop b d l (e + 1) 0 = Some (s', st)" by simp
      from "1.IH"(2) [OF el False this "1.prems"(2)] show ?thesis .
    next
      case kb: True
      show ?thesis
      proof (cases "\<not> isBufferFull b \<or> overwrite b")
        case False
        with "1.prems" push_loop_stop [OF el kb] show ?thesis
          by (simp add: same_shape_refl)
      next
        case go: True
        from "1.prems"(1) push_loop_byte [OF el kb go] obtain b1 where
          pb: "pushByte b (d (elem_off b e + int k)) = Some b1" and
          step: "push_loop b1 d l e (k + 1) = Some (s', st)"
          by (auto split: option.splits)
        have ok1: "cursors_ok b1" by (rule pushByte_cursors_ok [OF pb "1.prems"(2)])
        have sh1: "same_shape b b1" by (rule pushByte_shape [OF pb])
        from "1.IH"(1) [OF el kb go pb step ok1] sh1 show ?thesis
          by (auto intro: same_shape_trans)
      qed
    qed
  qed
qed

lemma undo_push_keeps: "cursors_ok b \<Longrightarrow> cursors_ok (undo_push b k) \<and> same_shape b (undo_push b k)"
proof (induction k arbitrary: b)
  case 0
  then show ?case by (simp add: same_shape_refl)
next
  case (Suc k)
  let ?b1 = "b\<lparr>head := decrement b (head b)\<rparr>"
  have "cursors_ok ?b1" using Suc.prems by (auto simp: cursors_ok_def decrement_def)
  from Suc.IH [OF this] have "cursors_ok (undo_push ?b1 k)" "same_shape ?b1 (undo_push ?b1 k)"
    by simp_all
  moreover have "same_shape b ?b1" by (simp add: same_shape_def)
  ultimately show ?case by (auto intro: same_shape_trans)
qed

lemma pushToBuffer_keeps:
  assumes "pushToBuffer b d l = Some (b', r)" "cursors_ok b"
  shows "cursors_ok b' \<and> same_shape b b'"
proof -
  from assms(1) obtain s st where loop: "push_loop b d (unat l) 0 0 = Some (s, st)"
    and b': "b' = (case st of Finished \<Rightarrow> s | Stopped e k \<Rightarrow> undo_push s k)"
    by (auto simp: pushToBuffer_def split: option.splits stop.splits)
  from push_loop_keeps [OF loop assms(2)] have s: "cursors_ok s" "same_shape b s" by simp_all
  show ?thesis
  proof (cases st)
    case Finished
    with b' s show ?thesis by simp
  next
    case (Stopped e k)
    with b' s undo_push_keeps [OF s(1), of k] show ?thesis
      by (auto intro: same_shape_trans)
  qed
qed

lemma pushToBuffer_Some:
  assumes "cursors_ok b" "storage_ok b"
  shows "\<exists>b' r. pushToBuffer b d l = Some (b', r)"
proof -
  from push_loop_safe [OF assms] obtain s st where "push_loop b d (unat l) 0 0 = Some (s, st)"
    by blast
  then show ?thesis by (cases st) (simp_all add: pushToBuffer_def)
qed

lemma pop_loop_safe:
  "cursors_ok s \<Longrightarrow> storage_ok s \<Longrightarrow> \<exists>s' d' st. pop_loop s d l e k = Some (s', d', st)"
proof (induction s d l e k rule: pop_loop.induct)
  case (1 b d l e k)
  show ?case
  proof (cases "e < l")
    case False
    then show ?thesis by (simp add: pop_loop_done)
  next
    case el: True
    show ?thesis
    proof (cases "k < unat (width b)")
      case False
      from "1.IH"(3) [OF el False "1.prems"] pop_loop_next_elem [OF el False]
      show ?thesis by simp
    next
      case kb: True
      show ?thesis
      proof (cases "isBufferEmpty b")
        case True
        with pop_loop_stop [OF el kb] show ?thesis by simp
      next
        case ne: False
        from popByte_Some [OF "1.prems"] obtain v b1 where pb: "popByte b = Some (v, b1)"
          by blast
        have ok1: "cursors_ok b1" by (rule popByte_cursors_ok [OF pb "1.prems"(1)])
        have st1: "storage_ok b1"
          using same_shape_simps(5) [OF popByte_shape [OF pb, THEN conjunct1]] "1.prems"(2)
          by simp
        show ?thesis
        proof (cases "stack b")
          case True
          from "1.IH"(1) [OF el kb ne True pb refl ok1 st1] pop_loop_byte [OF el kb ne] pb True
          show ?thesis by (simp add: fun_upd_def)
        next
          case False
          from "1.IH"(2) [OF el kb ne False pb refl ok1 st1] pop_loop_byte [OF el kb ne] pb False
          show ?thesis by (simp add: fun_upd_def)
        qed
      qed
    qed
  qed
qed

lemma pop_loop_keeps:
  "pop_loop s d l e k = Some (s', d', st) \<Longrightarrow> cursors_ok s \<Longrightarrow> cursors_ok s' \<and> same_shape s s'"
proof (induction s d l e k rule: pop_loop.induct)
  case (1 b d l e k)
  show ?case
  proof (cases "e < l")
    case False
    with "1.prems" show ?thesis by (simp add: pop_loop_done same_shape_refl)
  next
    case el: True
    show ?thesis
    proof (cases "k < unat (width b)")
      case False
      from "1.prems"(1) pop_loop_next_elem [OF el False]
      have "pop_loop b d l (e + 1) 0 = Some (s', d', st)" by simp
      from "1.IH"(3) [OF el False this "1.prems"(2)] show ?thesis .
    next
      case kb: True
      show ?thesis
      proof (cases "isBufferEmpty b")
        case True
        with "1.prems" pop_loop_stop [OF el kb] show ?thesis
          by (simp add: same_shape_refl)
      next
        case ne: False
        from "1.prems"(1) pop_loop_byte [OF el kb ne] obtain v b1 where
          pb: "popByte b = Some (v, b1)" and
          step: "pop_loop b1 (d((if stack b then elem_off b (e + 1) - 1 - int k
                                 else elem_off b e + int k) := v)) l e (k + 1) = Some (s', d', st)"
          by (auto split: option.splits)
        have ok1: "cursors_ok b1" by (rule popByte_cursors_ok [OF pb "1.prems"(2)])
        have sh1: "same_shape b b1" using popByte_shape [OF pb] by simp
        show ?thesis
        proof (cases "stack b")
          case True
          with step have "pop_loop b1 (d(elem_off b (e + 1) - 1 - int k := v)) l e (k + 1)
              = Some (s', d', st)" by simp
          from "1.IH"(1) [OF el kb ne True pb refl this ok1] sh1 show ?thesis
            by (auto intro: same_shape_trans)
        next
          case False
          with step have "pop_loop b1 (d(elem_off b e + int k := v)) l e (k + 1)
              = Some (s', d', st)" by simp
          from "1.IH"(2) [OF el kb ne False pb refl this ok1] sh1 show ?thesis
            by (auto intro: same_shape_trans)
        qed
      qed
    qed
  qed
qed

lemma undo_pop_keeps:
  "undo_pop b d e k = Some b' \<Longrightarrow> cursors_ok b \<Longrightarrow> cursors_ok b' \<and> same_shape b b'"
proof (induction k arbitrary: b)
  case 0
  then show ?case by (simp add: same_shape_refl)
next
  case (Suc k)
  from Suc.prems(1) obtain b1 where pb: "pushByte b (d (elem_off b e + int (Suc k))) = Some b1"
    and rest: "undo_pop b1 d e k = Some b'"
    by (auto split: option.splits)
  have ok1: "cursors_ok b1" by (rule pushByte_cursors_ok [OF pb Suc.prems(2)])
  from Suc.IH [OF rest ok1] pushByte_shape [OF pb] show ?case
    by (auto intro: same_shape_trans)
qed

lemma undo_pop_Some:
  "cursors_ok b \<Longrightarrow> storage_ok b \<Longrightarrow> \<exists>b'. undo_pop b d e k = Some b'"
proof (induction k arbitrary: b)
  case 0
  then show ?case by simp
next
  case (Suc k)
  from pushByte_Some [OF Suc.prems] obtain b1 where
    pb: "pushByte b (d (elem_off b e + int (Suc k))) = Some b1" by blast
  have ok1: "cursors_ok b1" by (rule pushByte_cursors_ok [OF pb Suc.prems(1)])
  have st1: "storage_ok b1"
    using same_shape_simps(5) [OF pushByte_shape [OF pb]] Suc.prems(2) by simp
  from Suc.IH [OF ok1 st1] pb show ?case by simp
qed

lemma popFromBuffer_keeps:
  assumes "popFromBuffer b d l = Some (b', d', r)" "cursors_ok b"
  shows "cursors_ok b' \<and> same_shape b b'"
proof -
  from assms(1) obtain s d1 st where loop: "pop_loop b d (unat l) 0 0 = Some (s, d1, st)"
    by (auto simp: popFromBuffer_def split: option.splits)
  from pop_loop_keeps [OF loop assms(2)] have s: "cursors_ok s" "same_shape b s" by simp_all
  show ?thesis
  proof (cases st)
    case Finished
    with assms(1) loop s show ?thesis by (simp add: popFromBuffer_def)
  next
    case (Stopped e k)
    with assms(1) loop have "undo_pop s d1 e k = Some b'"
      by (auto simp: popFromBuffer_def split: option.splits)
    from undo_pop_keeps [OF this s(1)] s(2) show ?thesis
      by (auto intro: same_shape_trans)
  qed
qed

lemma popFromBuffer_Some:
  assumes "cursors_ok b" "storage_ok b"
  shows "\<exists>b' d' r. popFromBuffer b d l = Some (b', d', r)"
proof -
  from pop_loop_safe [OF assms] obtain s d1 st where
    loop: "pop_loop b d (unat l) 0 0 = Some (s, d1, st)" by blast
  from pop_loop_keeps [OF loop assms(1)] have s: "cursors_ok s" "same_shape b s" by simp_all
  have "storage_ok s" using same_shape_simps(5) [OF s(2)] assms(2) by simp
  show ?thesis
  proof (cases st)
    case Finished
    with loop show ?thesis by (simp add: popFromBuffer_def)
  next
    case (Stopped e k)
    from undo_pop_Some [OF s(1) \<open>storage_ok s\<close>, of d1 e k] obtain b' where
      "undo_pop s d1 e k = Some b'" by blast
    with loop Stopped show ?thesis by (simp add: popFromBuffer_def)
  qed
qed

lemma reached_keeps: "reached b0 b \<Longrightarrow> cursors_ok b0 \<Longrightarrow> cursors_ok b \<and> same_shape b0 b"
proof (induction rule: reached.induct)
  case start
  then show ?case by (simp add: same_shape_refl)
next
  case (push b d l b' r)
  with pushToBuffer_keeps [OF push.hyps(2)] show ?case
    by (auto intro: same_shape_trans)
next
  case (pop b d l b' d' r)
  with popFromBuffer_keeps [OF pop.hyps(2)] show ?case
    by (auto intro: same_shape_trans)
qed

lemma unat_ring_size_le: "unat (n * ucast (w :: 8 word) :: 32 word) \<le> unat n * unat w"
  by (simp add: unat_word_ariths unat_ucast_width)

lemma newBuffer_fields:
  "newBuffer True True n w beh = Some b0 \<Longrightarrow>
   cursors_ok b0 \<and> last_off b0 = unat (n * ucast w :: 32 word) \<and> width b0 = w \<and>
   length (data b0) = unat (n + 1) * unat w \<and> occupied b0 = 0 \<and> head b0 = 0 \<and> tail b0 = 0"
  by (auto simp: newBuffer_def cursors_ok_def last_off_def occupied_def)

section \<open>Occupancy along the loops\<close>

lemma pushByte_occupied:
  assumes pb: "pushByte b v = Some b1" and ok: "cursors_ok b"
    and go: "\<not> isBufferFull b \<or> overwrite b"
  shows "occupied b1 = min (last_off b) (occupied b + 1)"
proof (cases "isBufferFull b")
  case True
  with go have "overwrite b" by simp
  from pushByte_overwrite_full [OF pb ok True this] True full_iff_occupied [OF ok]
  show ?thesis by simp
next
  case False
  with full_iff_occupied [OF ok] occupied_le [OF ok] have "occupied b < last_off b" by simp
  with pushByte_room [OF pb ok False] show ?thesis by simp
qed

lemma popByte_occupied:
  assumes pb: "popByte b = Some (v, b1)" and ok: "cursors_ok b" and ne: "\<not> isBufferEmpty b"
  shows "occupied b1 = occupied b - 1"
  using popByte_queue [OF pb ok ne] popByte_stack [OF pb ok ne] by (cases "stack b") simp_all

lemma push_loop_occupied:
  "push_loop s d l e k = Some (s', st) \<Longrightarrow> cursors_ok s \<Longrightarrow> k \<le> unat (width s) \<Longrightarrow>
   (case st of
      Finished \<Rightarrow> occupied s' = min (last_off s) (occupied s + (l * unat (width s) - (e * unat (width s) + k)))
    | Stopped e' k' \<Rightarrow> \<not> overwrite s \<and> e' < l \<and> k' < unat (width s) \<and>
        e * unat (width s) + k \<le> e' * unat (width s) + k' \<and>
        occupied s + (e' * unat (width s) + k' - (e * unat (width s) + k)) = last_off s \<and>
        occupied s' = last_off s)"
proof (induction s d l e k rule: push_loop.induct)
  case (1 b d l e k)
  let ?w = "unat (width b)"
  let ?L = "last_off b"
  show ?case
  proof (cases "e < l")
    case False
    then have "l \<le> e" by simp
    then have "l * ?w \<le> e * ?w" by (rule mult_le_mono1)
    then have "l * ?w - (e * ?w + k) = 0" by linarith
    with False "1.prems" occupied_le [OF "1.prems"(2)] show ?thesis
      by (simp add: push_loop_done)
  next
    case el: True
    show ?thesis
    proof (cases "k < ?w")
      case False
      with "1.prems"(3) have kw: "k = ?w" by simp
      from "1.prems"(1) push_loop_next_elem [OF el False]
      have step: "push_loop b d l (e + 1) 0 = Some (s', st)" by simp
      have eq: "(e + 1) * ?w + 0 = e * ?w + k" using kw by simp
      have "0 \<le> ?w" by simp
      from "1.IH"(2) [OF el False step "1.prems"(2) this] show ?thesis
        unfolding eq .
    next
      case kb: True
      have j0_lt: "e * ?w + k < l * ?w"
      proof -
        have "e * ?w + k < (e + 1) * ?w" using kb by simp
        also have "\<dots> \<le> l * ?w" using el by (intro mult_le_mono1) simp
        finally show ?thesis .
      qed
      show ?thesis
      proof (cases "\<not> isBufferFull b \<or> overwrite b")
        case False
        with "1.prems"(1) push_loop_stop [OF el kb] have "s' = b" "st = Stopped e k" by simp_all
        with False el kb full_iff_occupied [OF "1.prems"(2)] show ?thesis by simp
      next
        case go: True
        from "1.prems"(1) push_loop_byte [OF el kb go] obtain b1 where
          pb: "pushByte b (d (elem_off b e + int k)) = Some b1" and
          step: "push_loop b1 d l e (k + 1) = Some (s', st)"
          by (auto split: option.splits)
        have ok1: "cursors_ok b1" by (rule pushByte_cursors_ok [OF pb "1.prems"(2)])
        have sh1: "same_shape b b1" by (rule pushByte_shape [OF pb])
        have w1: "unat (width b1) = ?w" and L1: "last_off b1 = ?L" and ov1: "overwrite b1 = overwrite b"
          using same_shape_simps [OF sh1] sh1 by (simp_all add: same_shape_def)
        have occ1: "occupied b1 = min ?L (occupied b + 1)"
          by (rule pushByte_occupied [OF pb "1.prems"(2) go])
        have k1: "k + 1 \<le> unat (width b1)" using kb w1 by simp
        note IH = "1.IH"(1) [OF el kb go pb step ok1 k1, unfolded w1 L1 ov1 occ1]
        show ?thesis
        proof (cases st)
          case Finished
          with IH have "occupied s' = min ?L (min ?L (occupied b + 1) + (l * ?w - (e * ?w + (k + 1))))"
            by simp
          also have "\<dots> = min ?L (occupied b + (l * ?w - (e * ?w + k)))"
            using j0_lt by linarith
          finally show ?thesis using Finished by simp
        next
          case (Stopped e' k')
          with IH have drop: "\<not> overwrite b" and e': "e' < l" and k': "k' < ?w"
            and le: "e * ?w + (k + 1) \<le> e' * ?w + k'"
            and sum: "min ?L (occupied b + 1) + (e' * ?w + k' - (e * ?w + (k + 1))) = ?L"
            and full: "occupied s' = ?L"
            by simp_all
          from drop go have "\<not> isBufferFull b" by simp
          with full_iff_occupied [OF "1.prems"(2)] occupied_le [OF "1.prems"(2)]
          have "occupied b < ?L" by simp
          with sum le have "occupied b + (e' * ?w + k' - (e * ?w + k)) = ?L" by linarith
          with Stopped drop e' k' le full show ?thesis by simp
        qed
      qed
    qed
  qed
qed

lemma pop_loop_occupied:
  "pop_loop s d l e k = Some (s', d', st) \<Longrightarrow> cursors_ok s \<Longrightarrow> k \<le> unat (width s) \<Longrightarrow>
   (case st of
      Finished \<Rightarrow> occupied s' + (l * unat (width s) - (e * unat (width s) + k)) = occupied s
    | Stopped e' k' \<Rightarrow> e' < l \<and> k' < unat (width s) \<and>
        e * unat (width s) + k \<le> e' * unat (width s) + k' \<and>
        occupied s = e' * unat (width s) + k' - (e * unat (width s) + k) \<and>
        occupied s' = 0)"
proof (induction s d l e k rule: pop_loop.induct)
  case (1 b d l e k)
  let ?w = "unat (width b)"
  show ?case
  proof (cases "e < l")
    case False
    then have "l \<le> e" by simp
    then have "l * ?w \<le> e * ?w" by (rule mult_le_mono1)
    then have "l * ?w - (e * ?w + k) = 0" by linarith
    moreover from False "1.prems"(1) have "s' = b" "st = Finished"
      by (simp_all add: pop_loop_done)
    ultimately show ?thesis by simp
  next
    case el: True
    show ?thesis
    proof (cases "k < ?w")
      case False
      with "1.prems"(3) have kw: "k = ?w" by simp
      from "1.prems"(1) pop_loop_next_elem [OF el False]
      have step: "pop_loop b d l (e + 1) 0 = Some (s', d', st)" by simp
      have eq: "(e + 1) * ?w + 0 = e * ?w + k" using kw by simp
      have "0 \<le> ?w" by simp
      from "1.IH"(3) [OF el False step "1.prems"(2) this] show ?thesis
        unfolding eq .
    next
      case kb: True
      have j0_lt: "e * ?w + k < l * ?w"
      proof -
        have "e * ?w + k < (e + 1) * ?w" using kb by simp
        also have "\<dots> \<le> l * ?w" using el by (intro mult_le_mono1) simp
        finally show ?thesis .
      qed
      show ?thesis
      proof (cases "isBufferEmpty b")
        case True
        with "1.prems"(1) pop_loop_stop [OF el kb] have "s' = b" "st = Stopped e k" by simp_all
        with True el kb empty_iff_occupied [OF "1.prems"(2)] show ?thesis by simp
      next
        case ne: False
        from "1.prems"(1) pop_loop_byte [OF el kb ne] obtain v b1 where
          pb: "popByte b = Some (v, b1)" and
          step: "pop_loop b1 (d((if stack b then elem_off b (e + 1) - 1 - int k
                                 else elem_off b e + int k) := v)) l e (k + 1) = Some (s', d', st)"
          by (auto split: option.splits)
        have ok1: "cursors_ok b1" by (rule popByte_cursors_ok [OF pb "1.prems"(2)])
        have sh1: "same_shape b b1" using popByte_shape [OF pb] by simp
        have w1: "unat (width b1) = ?w"
          using sh1 by (simp add: same_shape_def)
        have occ1: "occupied b1 = occupied b - 1"
          by (rule popByte_occupied [OF pb "1.prems"(2) ne])
        have pos: "0 < occupied b"
          using ne empty_iff_occupied [OF "1.prems"(2)] by simp
        have k1: "k + 1 \<le> unat (width b1)" using kb w1 by simp
        have IH: "case st of
            Finished \<Rightarrow> occupied s' + (l * ?w - (e * ?w + (k + 1))) = occupied b - 1
          | Stopped e' k' \<Rightarrow> e' < l \<and> k' < ?w \<and> e * ?w + (k + 1) \<le> e' * ?w + k' \<and>
              occupied b - 1 = e' * ?w + k' - (e * ?w + (k + 1)) \<and> occupied s' = 0"
        proof (cases "stack b")
          case True
          with step have "pop_loop b1 (d(elem_off b (e + 1) - 1 - int k := v)) l e (k + 1)
              = Some (s', d', st)" by simp
          from "1.IH"(1) [OF el kb ne True pb refl this ok1 k1] show ?thesis
            unfolding w1 occ1 .
        next
          case False
          with step have "pop_loop b1 (d(elem_off b e + int k := v)) l e (k + 1)
              = Some (s', d', st)" by simp
          from "1.IH"(2) [OF el kb ne False pb refl this ok1 k1] show ?thesis
            unfolding w1 occ1 .
        qed
        show ?thesis
        proof (cases st)
          case Finished
          with IH have "occupied s' + (l * ?w - (e * ?w + (k + 1))) = occupied b - 1" by simp
          with pos j0_lt have "occupied s' + (l * ?w - (e * ?w + k)) = occupied b" by linarith
          with Finished show ?thesis by simp
        next
          case (Stopped e' k')
          with IH have e': "e' < l" and k': "k' < ?w"
            and le: "e * ?w + (k + 1) \<le> e' * ?w + k'"
            and sum: "occupied b - 1 = e' * ?w + k' - (e * ?w + (k + 1))"
            and emp: "occupied s' = 0"
            by simp_all
          from sum le pos have "occupied b = e' * ?w + k' - (e * ?w + k)" by linarith
          with Stopped e' k' le emp show ?thesis by simp
        qed
      qed
    qed
  qed
qed

lemma dvd_rest_zero:
  fixes w a e k c :: nat
  assumes "w dvd a" "w dvd c" "a + (e * w + k) = c" "k < w"
  shows "k = 0"
proof -
  from assms(1) have "w dvd a + e * w" by simp
  moreover from assms(2,3) have "w dvd (a + e * w) + k" by (simp add: add.assoc)
  ultimately have "w dvd k" by (simp only: dvd_add_right_iff)
  with assms(4) show ?thesis by (auto dest: dvd_imp_le)
qed

lemma push_stop_boundary:
  assumes ok: "cursors_ok b" and occ: "unat (width b) dvd occupied b"
    and ring: "unat (width b) dvd last_off b"
    and loop: "push_loop b d l 0 0 = Some (s, Stopped e k)"
  shows "k = 0"
proof -
  from push_loop_occupied [OF loop ok]
  have "k < unat (width b)" "occupied b + (e * unat (width b) + k) = last_off b" by simp_all
  with dvd_rest_zero [OF occ ring] show ?thesis by simp
qed

lemma pop_stop_boundary:
  assumes ok: "cursors_ok b" and occ: "unat (width b) dvd occupied b"
    and loop: "pop_loop b d l 0 0 = Some (s, d', Stopped e k)"
  shows "k = 0"
proof -
  from pop_loop_occupied [OF loop ok]
  have k: "k < unat (width b)" and sum: "occupied b = e * unat (width b) + k" by simp_all
  from occ sum have "unat (width b) dvd e * unat (width b) + k" by simp
  then have "unat (width b) dvd k" by (simp only: dvd_add_right_iff dvd_triv_right)
  with k show ?thesis by (auto dest: dvd_imp_le)
qed

lemma pushToBuffer_whole:
  assumes ok: "cursors_ok b" and occ: "unat (width b) dvd occupied b"
    and ring: "unat (width b) dvd last_off b"
    and res: "pushToBuffer b d l = Some (b', r)"
  shows "unat (width b) dvd occupied b'"
proof -
  let ?w = "unat (width b)"
  from res obtain s st where loop: "push_loop b d (unat l) 0 0 = Some (s, st)"
    by (auto simp: pushToBuffer_def split: option.splits)
  show ?thesis
  proof (cases st)
    case Finished
    with res loop have b': "b' = s" by (simp add: pushToBuffer_def)
    from push_loop_occupied [OF loop ok] Finished
    have "occupied s = min (last_off b) (occupied b + unat l * ?w)" by simp
    with occ ring b' show ?thesis by (simp add: min_def)
  next
    case (Stopped e k)
    with push_stop_boundary [OF ok occ ring] loop have "k = 0" by simp
    with res loop Stopped have b': "b' = s" by (simp add: pushToBuffer_def)
    from push_loop_occupied [OF loop ok] Stopped have "occupied s = last_off b" by simp
    with ring b' show ?thesis by simp
  qed
qed

lemma popFromBuffer_whole:
  assumes ok: "cursors_ok b" and occ: "unat (width b) dvd occupied b"
    and res: "popFromBuffer b d l = Some (b', d', r)"
  shows "unat (width b) dvd occupied b'"
proof -
  let ?w = "unat (width b)"
  from res obtain s d1 st where loop: "pop_loop b d (unat l) 0 0 = Some (s, d1, st)"
    by (auto simp: popFromBuffer_def split: option.splits)
  show ?thesis
  proof (cases st)
    case Finished
    with res loop have b': "b' = s" by (simp add: popFromBuffer_def)
    from pop_loop_occupied [OF loop ok] Finished
    have "occupied s + unat l * ?w = occupied b" by simp
    with occ have "?w dvd occupied s + unat l * ?w" by simp
    then have "?w dvd occupied s" by (simp only: dvd_add_left_iff dvd_triv_right)
    with b' show ?thesis by simp
  next
    case (Stopped e k)
    with pop_stop_boundary [OF ok occ] loop have "k = 0" by simp
    with res loop Stopped have b': "b' = s" by (simp add: popFromBuffer_def)
    from pop_loop_occupied [OF loop ok] Stopped have "occupied s = 0" by simp
    with b' show ?thesis by simp
  qed
qed

lemma reached_whole:
  assumes ok0: "cursors_ok b0" and occ0: "unat (width b0) dvd occupied b0"
    and ring: "unat (width b0) dvd last_off b0"
  shows "reached b0 b \<Longrightarrow> unat (width b0) dvd occupied b"
proof (induction rule: reached.induct)
  case start
  show ?case by (rule occ0)
next
  case (push b d l b' r)
  from reached_keeps [OF push.hyps(1) ok0] have ok: "cursors_ok b" and sh: "same_shape b0 b"
    by simp_all
  from sh have w: "width b = width b0" by (simp add: same_shape_def)
  from same_shape_simps(1) [OF sh] have L: "last_off b = last_off b0" .
  from pushToBuffer_whole [OF ok _ _ push.hyps(2)] push.IH ring show ?case
    by (simp add: w L)
next
  case (pop b d l b' d' r)
  from reached_keeps [OF pop.hyps(1) ok0] have ok: "cursors_ok b" and sh: "same_shape b0 b"
    by simp_all
  from sh have w: "width b = width b0" by (simp add: same_shape_def)
  from popFromBuffer_whole [OF ok _ pop.hyps(2)] pop.IH show ?case
    by (simp add: w)
qed

section \<open>More example buffers\<close>

lemma full_buffer_pushed:
  "pushToBuffer fresh_buffer (mem_of (int_le 10 @ int_le 20 @ int_le 30)) 3 = Some (full_buffer, 0)"
  by code_simp

lemma full_buffer_reached: "reached fresh_buffer full_buffer"
  by (rule reached.push [OF reached.start full_buffer_pushed])

section \<open>Pushing and popping whole elements\<close>

lemma elem_off_nowrap:
  assumes "e * unat (width b) < 2 ^ 32"
  shows "elem_off b e = int (e * unat (width b))"
proof -
  have "unat (word_of_nat e * ucast (width b) :: 32 word)
      = (e mod 2 ^ 32 * unat (width b)) mod 2 ^ 32"
    by (simp add: unat_word_ariths unat_of_nat unat_ucast_width)
  also have "\<dots> = (e * unat (width b)) mod 2 ^ 32"
    by (simp add: mod_mult_left_eq)
  also have "\<dots> = e * unat (width b)"
    using assms by simp
  finally show ?thesis by (simp add: elem_off_def)
qed

lemma fold_upd_other:
  "a \<notin> f ` set js \<Longrightarrow> fold (\<lambda>j m. m(f j := v j)) js d a = d a"
  by (induction js arbitrary: d) auto

lemma fold_upd_apply:
  "inj_on f (set js) \<Longrightarrow> j \<in> set js \<Longrightarrow> fold (\<lambda>j m. m(f j := v j)) js d (f j) = v j"
proof (induction js arbitrary: d)
  case Nil
  then show ?case by simp
next
  case (Cons x xs)
  have unfold: "fold (\<lambda>j m. m(f j := v j)) (x # xs) d
      = fold (\<lambda>j m. m(f j := v j)) xs (d(f x := v x))"
    by (simp only: fold_simps o_apply)
  show ?case
  proof (cases "j \<in> set xs")
    case True
    from Cons.prems(1) have "inj_on f (set xs)" by (simp add: inj_on_def)
    from Cons.IH [OF this True] show ?thesis by (simp only: unfold)
  next
    case False
    with Cons.prems(2) have jx: "j = x" by simp
    from Cons.prems(1) False jx have "f x \<notin> f ` set xs" by (auto simp: inj_on_def)
    from fold_upd_other [OF this, of v "d(f x := v x)"]
    have "fold (\<lambda>j m. m(f j := v j)) xs (d(f x := v x)) (f x) = v x"
      by (simp only: fun_upd_same)
    then show ?thesis by (simp only: unfold jx)
  qed
qed

lemma length_contents [simp]: "length (contents b) = occupied b"
  by (simp add: contents_def)

lemma push_loop_contents:
  "cursors_ok s \<Longrightarrow> storage_ok s \<Longrightarrow> k \<le> unat (width s) \<Longrightarrow>
   occupied s + (l * unat (width s) - (e * unat (width s) + k)) \<le> last_off s \<Longrightarrow>
   l * unat (width s) < 2 ^ 32 \<Longrightarrow>
   \<exists>s'. push_loop s d l e k = Some (s', Finished) \<and> cursors_ok s' \<and> same_shape s s' \<and>
        tail s' = tail s \<and>
        contents s' = contents s @ map (\<lambda>j. d (int j)) [e * unat (width s) + k..<l * unat (width s)]"
proof (induction s d l e k rule: push_loop.induct)
  case (1 b d l e k)
  let ?w = "unat (width b)"
  show ?case
  proof (cases "e < l")
    case False
    then have "l \<le> e" by simp
    then have "l * ?w \<le> e * ?w" by (rule mult_le_mono1)
    then have "l * ?w \<le> e * ?w + k" by linarith
    then have "[e * ?w + k..<l * ?w] = []" by (simp only: upt_eq_Nil_conv) simp
    with False "1.prems"(1) show ?thesis by (simp add: push_loop_done same_shape_refl)
  next
    case el: True
    show ?thesis
    proof (cases "k < ?w")
      case False
      with "1.prems"(3) have kw: "k = ?w" by simp
      have eq: "(e + 1) * ?w + 0 = e * ?w + k" using kw by simp
      have "0 \<le> ?w" by simp
      from "1.IH"(2) [OF el False "1.prems"(1,2) this _ "1.prems"(5)] "1.prems"(4)
      have "\<exists>s'. push_loop b d l (e + 1) 0 = Some (s', Finished) \<and> cursors_ok s' \<and>
          same_shape b s' \<and> tail s' = tail b \<and>
          contents s' = contents b @ map (\<lambda>j. d (int j)) [(e + 1) * ?w + 0..<l * ?w]"
        unfolding eq by blast
      then show ?thesis
        unfolding eq push_loop_next_elem [OF el False] .
    next
      case kb: True
      have j0_lt: "e * ?w + k < l * ?w"
      proof -
        have "e * ?w + k < (e + 1) * ?w" using kb by simp
        also have "\<dots> \<le> l * ?w" using el by (intro mult_le_mono1) simp
        finally show ?thesis .
      qed
      from j0_lt "1.prems"(4) have room: "occupied b < last_off b" by linarith
      with full_iff_occupied [OF "1.prems"(1)] have nf: "\<not> isBufferFull b" by simp
      then have go: "\<not> isBufferFull b \<or> overwrite b" by simp
      from pushByte_Some [OF "1.prems"(1,2)] obtain b1 where
        pb: "pushByte b (d (elem_off b e + int k)) = Some b1" by blast
      have ok1: "cursors_ok b1" by (rule pushByte_cursors_ok [OF pb "1.prems"(1)])
      have sh1: "same_shape b b1" by (rule pushByte_shape [OF pb])
      have st1: "storage_ok b1" using same_shape_simps(5) [OF sh1] "1.prems"(2) by simp
      have w1: "unat (width b1) = ?w" using sh1 by (simp add: same_shape_def)
      have L1: "last_off b1 = last_off b" by (rule same_shape_simps(1) [OF sh1])
      from pushByte_room [OF pb "1.prems"(1) nf]
      have t1: "tail b1 = tail b" and occ1: "occupied b1 = occupied b + 1"
        and c1: "contents b1 = contents b @ [d (elem_off b e + int k)]" by simp_all
      have "e * ?w \<le> l * ?w" using el by (intro mult_le_mono1) simp
      with "1.prems"(5) have "e * ?w < 2 ^ 32" by linarith
      from elem_off_nowrap [OF this] have src: "elem_off b e + int k = int (e * ?w + k)" by simp
      have k1: "k + 1 \<le> unat (width b1)" using kb w1 by simp
      have fits1: "occupied b1 + (l * unat (width b1) - (e * unat (width b1) + (k + 1))) \<le> last_off b1"
        using "1.prems"(4) j0_lt by (simp add: w1 L1 occ1)
      have small1: "l * unat (width b1) < 2 ^ 32" using "1.prems"(5) by (simp add: w1)
      from "1.IH"(1) [OF el kb go pb ok1 st1 k1 fits1 small1] obtain s' where
        s': "push_loop b1 d l e (k + 1) = Some (s', Finished)" "cursors_ok s'" "same_shape b1 s'"
          "tail s' = tail b1"
          "contents s' = contents b1 @ map (\<lambda>j. d (int j)) [e * ?w + (k + 1)..<l * ?w]"
        unfolding w1 by blast
      have "[e * ?w + k..<l * ?w] = (e * ?w + k) # [e * ?w + (k + 1)..<l * ?w]"
        using j0_lt by (simp add: upt_conv_Cons)
      with s'(5) c1 src
      have "contents s' = contents b @ map (\<lambda>j. d (int j)) [e * ?w + k..<l * ?w]" by simp
      moreover have "push_loop b d l e k = Some (s', Finished)"
        using push_loop_byte [OF el kb go] pb s'(1) by simp
      moreover have "same_shape b s'" by (rule same_shape_trans [OF sh1 s'(3)])
      ultimately show ?thesis using s'(2,4) t1 by simp
    qed
  qed
qed

lemma dest_same_shape: "same_shape b b' \<Longrightarrow> dest b' j = dest b j"
  using same_shape_simps(2,4) [of b b'] by (simp add: dest_def same_shape_def)

lemma dest_at:
  "k < unat (width b) \<Longrightarrow>
   dest b (e * unat (width b) + k)
     = (if stack b then elem_off b (e + 1) - 1 - int k else elem_off b e + int k)"
  by (simp add: dest_def)

lemma popByte_popped:
  assumes pb: "popByte b = Some (v, b1)" and ok: "cursors_ok b" and ne: "\<not> isBufferEmpty b"
  shows "v = popped b j0 j0"
    and "\<And>j. j0 < j \<Longrightarrow> j - j0 < occupied b \<Longrightarrow> popped b1 (j0 + 1) j = popped b j0 j"
proof -
  have pos: "0 < occupied b"
    using ne empty_iff_occupied [OF ok] by simp
  then have nonempty: "contents b \<noteq> []"
    by (simp add: contents_def)
  have sh: "stack b1 = stack b"
    using same_shape_simps(2) [OF popByte_shape [OF pb, THEN conjunct1]] .
  show "v = popped b j0 j0"
  proof (cases "stack b")
    case True
    with popByte_stack [OF pb ok ne] nonempty show ?thesis
      by (simp add: popped_def last_conv_nth)
  next
    case False
    with popByte_queue [OF pb ok ne] nonempty show ?thesis
      by (simp add: popped_def hd_conv_nth)
  qed
  fix j
  assume j: "j0 < j" "j - j0 < occupied b"
  show "popped b1 (j0 + 1) j = popped b j0 j"
  proof (cases "stack b")
    case True
    from popByte_stack [OF pb ok ne True]
    have occ1: "occupied b1 = occupied b - 1" and c1: "contents b1 = butlast (contents b)"
      by simp_all
    have idx: "occupied b - 1 - 1 - (j - (j0 + 1)) = occupied b - 1 - (j - j0)"
      using j by linarith
    have "occupied b - 1 - (j - j0) < length (butlast (contents b))"
      using j by simp
    then have "butlast (contents b) ! (occupied b - 1 - (j - j0))
        = contents b ! (occupied b - 1 - (j - j0))"
      by (rule nth_butlast)
    with True sh occ1 c1 idx show ?thesis by (simp add: popped_def)
  next
    case False
    from popByte_queue [OF pb ok ne False]
    have c1: "contents b1 = tl (contents b)" by simp
    have "j - (j0 + 1) < length (tl (contents b))" using j by simp
    then have "tl (contents b) ! (j - (j0 + 1)) = contents b ! Suc (j - (j0 + 1))"
      by (rule nth_tl)
    moreover have "Suc (j - (j0 + 1)) = j - j0" using j by simp
    ultimately show ?thesis using False sh c1 by (simp add: popped_def)
  qed
qed

lemma pop_loop_fold:
  "cursors_ok s \<Longrightarrow> storage_ok s \<Longrightarrow> k \<le> unat (width s) \<Longrightarrow>
   l * unat (width s) - (e * unat (width s) + k) \<le> occupied s \<Longrightarrow>
   \<exists>s'. pop_loop s d l e k
          = Some (s', fold (\<lambda>j m. m(dest s j := popped s (e * unat (width s) + k) j))
                        [e * unat (width s) + k..<l * unat (width s)] d, Finished) \<and>
        cursors_ok s' \<and> same_shape s s' \<and>
        occupied s' = occupied s - (l * unat (width s) - (e * unat (width s) + k))"
proof (induction s d l e k rule: pop_loop.induct)
  case (1 b d l e k)
  let ?w = "unat (width b)"
  let ?j0 = "e * ?w + k"
  show ?case
  proof (cases "e < l")
    case False
    then have "l \<le> e" by simp
    then have "l * ?w \<le> e * ?w" by (rule mult_le_mono1)
    then have le: "l * ?w \<le> ?j0" by linarith
    then have "[?j0..<l * ?w] = []" by (simp only: upt_eq_Nil_conv) simp
    moreover from le have "l * ?w - ?j0 = 0" by simp
    ultimately show ?thesis
      using False "1.prems"(1) by (simp add: pop_loop_done same_shape_refl)
  next
    case el: True
    show ?thesis
    proof (cases "k < ?w")
      case False
      with "1.prems"(3) have kw: "k = ?w" by simp
      have eq: "(e + 1) * ?w + 0 = ?j0" using kw by simp
      have "0 \<le> ?w" by simp
      from "1.IH"(3) [OF el False "1.prems"(1,2) this] "1.prems"(4)
      have "\<exists>s'. pop_loop b d l (e + 1) 0
            = Some (s', fold (\<lambda>j m. m(dest b j := popped b ((e + 1) * ?w + 0) j))
                          [(e + 1) * ?w + 0..<l * ?w] d, Finished) \<and>
          cursors_ok s' \<and> same_shape b s' \<and>
          occupied s' = occupied b - (l * ?w - ((e + 1) * ?w + 0))"
        unfolding eq by blast
      then show ?thesis
        unfolding eq pop_loop_next_elem [OF el False] .
    next
      case kb: True
      have j0_lt: "?j0 < l * ?w"
      proof -
        have "?j0 < (e + 1) * ?w" using kb by simp
        also have "\<dots> \<le> l * ?w" using el by (intro mult_le_mono1) simp
        finally show ?thesis .
      qed
      from j0_lt "1.prems"(4) have pos: "0 < occupied b" by linarith
      with empty_iff_occupied [OF "1.prems"(1)] have ne: "\<not> isBufferEmpty b" by simp
      from popByte_Some [OF "1.prems"(1,2)] obtain v b1 where
        pb: "popByte b = Some (v, b1)" by blast
      have ok1: "cursors_ok b1" by (rule popByte_cursors_ok [OF pb "1.prems"(1)])
      have sh1: "same_shape b b1" using popByte_shape [OF pb] by simp
      have st1: "storage_ok b1" using same_shape_simps(5) [OF sh1] "1.prems"(2) by simp
      have w1: "unat (width b1) = ?w" using sh1 by (simp add: same_shape_def)
      have occ1: "occupied b1 = occupied b - 1"
        by (rule popByte_occupied [OF pb "1.prems"(1) ne])
      have k1: "k + 1 \<le> unat (width b1)" using kb w1 by simp
      have fits1: "l * unat (width b1) - (e * unat (width b1) + (k + 1)) \<le> occupied b1"
        using "1.prems"(4) j0_lt by (simp add: w1 occ1)
      let ?d1 = "d(dest b ?j0 := v)"
      have step: "pop_loop b d l e k = pop_loop b1 ?d1 l e (k + 1)"
        using pop_loop_byte [OF el kb ne] pb dest_at [OF kb, of e] by simp
      have "\<exists>s'. pop_loop b1 ?d1 l e (k + 1)
            = Some (s', fold (\<lambda>j m. m(dest b1 j := popped b1 (e * ?w + (k + 1)) j))
                          [e * ?w + (k + 1)..<l * ?w] ?d1, Finished) \<and>
          cursors_ok s' \<and> same_shape b1 s' \<and>
          occupied s' = occupied b1 - (l * ?w - (e * ?w + (k + 1)))"
      proof (cases "stack b")
        case True
        have "d(elem_off b (e + 1) - 1 - int k := v) = ?d1"
          using dest_at [OF kb, of e] True by simp
        from "1.IH"(1) [OF el kb ne True pb refl ok1 st1 k1 fits1] this show ?thesis
          unfolding w1 by (simp add: fun_upd_def)
      next
        case False
        have "d(elem_off b e + int k := v) = ?d1"
          using dest_at [OF kb, of e] False by simp
        from "1.IH"(2) [OF el kb ne False pb refl ok1 st1 k1 fits1] this show ?thesis
          unfolding w1 by (simp add: fun_upd_def)
      qed
      then obtain s' where
        s': "pop_loop b1 ?d1 l e (k + 1)
            = Some (s', fold (\<lambda>j m. m(dest b1 j := popped b1 (e * ?w + (k + 1)) j))
                          [e * ?w + (k + 1)..<l * ?w] ?d1, Finished)"
          "cursors_ok s'" "same_shape b1 s'"
          "occupied s' = occupied b1 - (l * ?w - (e * ?w + (k + 1)))"
        by blast
      have same: "fold (\<lambda>j m. m(dest b1 j := popped b1 (e * ?w + (k + 1)) j))
                    [e * ?w + (k + 1)..<l * ?w] ?d1
                = fold (\<lambda>j m. m(dest b j := popped b ?j0 j)) [e * ?w + (k + 1)..<l * ?w] ?d1"
      proof (rule fold_cong [OF refl refl])
        fix j
        assume "j \<in> set [e * ?w + (k + 1)..<l * ?w]"
        then have j: "?j0 < j" "j - ?j0 < occupied b"
          using "1.prems"(4) by auto
        from popByte_popped(2) [OF pb "1.prems"(1) ne j]
        have "popped b1 (e * ?w + (k + 1)) j = popped b ?j0 j" by (simp add: add.assoc)
        then show "(\<lambda>m. m(dest b1 j := popped b1 (e * ?w + (k + 1)) j))
            = (\<lambda>m. m(dest b j := popped b ?j0 j))"
          by (simp only: dest_same_shape [OF sh1])
      qed
      have v: "v = popped b ?j0 ?j0"
        by (rule popByte_popped(1) [OF pb "1.prems"(1) ne])
      have "[?j0..<l * ?w] = ?j0 # [e * ?w + (k + 1)..<l * ?w]"
        using j0_lt by (simp add: upt_conv_Cons)
      then have "fold (\<lambda>j m. m(dest b j := popped b ?j0 j)) [?j0..<l * ?w] d
          = fold (\<lambda>j m. m(dest b j := popped b ?j0 j)) [e * ?w + (k + 1)..<l * ?w] ?d1"
        by (simp only: fold_simps o_apply v)
      with s'(1) same step
      have "pop_loop b d l e k
          = Some (s', fold (\<lambda>j m. m(dest b j := popped b ?j0 j)) [?j0..<l * ?w] d, Finished)"
        by simp
      moreover have "same_shape b s'" by (rule same_shape_trans [OF sh1 s'(3)])
      moreover have "occupied s' = occupied b - (l * ?w - ?j0)"
        using s'(4) occ1 j0_lt by simp
      ultimately show ?thesis using s'(2) by blast
    qed
  qed
qed

lemma last_off_small: "last_off b < 2 ^ 32"
  using unsigned_less [of "(depth b - 1) * ucast (width b) :: 32 word", where 'a = nat]
  by (simp add: last_off_def)

lemma mirror_mirror: "j < l * unat (width b) \<Longrightarrow> mirror b (mirror b j) = j"
proof (cases "stack b")
  case False
  then show ?thesis by (simp add: mirror_def)
next
  case True
  assume "j < l * unat (width b)"
  then have w: "0 < unat (width b)" by (cases "unat (width b) = 0") simp_all
  let ?w = "unat (width b)"
  let ?m = "?w - 1 - j mod ?w"
  have m: "?m < ?w" using w by simp
  have "(j div ?w * ?w + ?m) div ?w = j div ?w" using m by simp
  moreover have "(j div ?w * ?w + ?m) mod ?w = ?m" using m by simp
  moreover have "?w - 1 - ?m = j mod ?w"
    using w mod_less_divisor [OF w, of j] by linarith
  ultimately show ?thesis using True by (simp add: mirror_def)
qed

lemma mirror_less: "j < l * unat (width b) \<Longrightarrow> mirror b j < l * unat (width b)"
proof (cases "stack b")
  case False
  then show "j < l * unat (width b) \<Longrightarrow> ?thesis" by (simp add: mirror_def)
next
  case True
  let ?w = "unat (width b)"
  assume j: "j < l * ?w"
  then have w: "0 < ?w" by (cases "?w = 0") simp_all
  from j have "j div ?w < l" by (simp add: less_mult_imp_div_less)
  then have "j div ?w + 1 \<le> l" by simp
  then have "(j div ?w + 1) * ?w \<le> l * ?w" by (rule mult_le_mono1)
  moreover have "j div ?w * ?w + (?w - 1 - j mod ?w) < (j div ?w + 1) * ?w"
    using w by simp
  ultimately show ?thesis using True by (simp add: mirror_def)
qed

lemma dest_mirror:
  assumes j: "j < l * unat (width b)" and small: "l * unat (width b) < 2 ^ 32"
  shows "dest b j = int (mirror b j)"
proof -
  let ?w = "unat (width b)"
  from j have w: "0 < ?w" by (cases "?w = 0") simp_all
  from j have e: "j div ?w < l" by (simp add: less_mult_imp_div_less)
  show ?thesis
  proof (cases "stack b")
    case False
    have "j div ?w * ?w \<le> j" by simp
    with j small have "j div ?w * ?w < 2 ^ 32" by linarith
    from elem_off_nowrap [OF this]
    have "elem_off b (j div ?w) + int (j mod ?w) = int (j div ?w * ?w + j mod ?w)"
      by (simp only: of_nat_add)
    also have "j div ?w * ?w + j mod ?w = j" by simp
    finally show ?thesis using False by (simp add: dest_def mirror_def)
  next
    case True
    from e have "j div ?w + 1 \<le> l" by simp
    then have "(j div ?w + 1) * ?w \<le> l * ?w" by (rule mult_le_mono1)
    with small have "(j div ?w + 1) * ?w < 2 ^ 32" by linarith
    from elem_off_nowrap [OF this]
    have "elem_off b (j div ?w + 1) = int (j div ?w * ?w + ?w)" by simp
    moreover have "j mod ?w < ?w" using w by simp
    ultimately have "elem_off b (j div ?w + 1) - 1 - int (j mod ?w)
        = int (j div ?w * ?w + (?w - 1 - j mod ?w))"
      by linarith
    with True show ?thesis by (simp add: dest_def mirror_def)
  qed
qed

lemma dest_inj:
  assumes small: "l * unat (width b) < 2 ^ 32"
  shows "inj_on (dest b) (set [0..<l * unat (width b)])"
proof (rule inj_on_inverseI [where g = "\<lambda>i. mirror b (nat i)"])
  fix j
  assume "j \<in> set [0..<l * unat (width b)]"
  then have j: "j < l * unat (width b)" by simp
  from dest_mirror [OF j small] mirror_mirror [OF j]
  show "mirror b (nat (dest b j)) = j" by simp
qed

lemma mirror_at:
  "k < unat (width b) \<Longrightarrow>
   mirror b (e * unat (width b) + k)
     = (if stack b then e * unat (width b) + (unat (width b) - 1 - k) else e * unat (width b) + k)"
  by (simp add: mirror_def)

lemma elements_nth:
  "e < l \<Longrightarrow> k < w \<Longrightarrow> elements d w l ! e ! k = d (int (e * w + k))"
  by (simp add: elements_def)

lemma pop_after_push:
  assumes ok1: "cursors_ok b1" and st1: "storage_ok b1"
    and occ1: "occupied b1 = l * unat (width b1)"
    and small: "l * unat (width b1) < 2 ^ 32"
  shows "\<exists>b2 d'. pop_loop b1 dst l 0 0 = Some (b2, d', Finished) \<and> cursors_ok b2 \<and>
      occupied b2 = 0 \<and>
      (\<forall>e<l. \<forall>k<unat (width b1).
         d' (int (e * unat (width b1) + k))
           = contents b1 ! ((if stack b1 then l - 1 - e else e) * unat (width b1) + k))"
proof -
  let ?w = "unat (width b1)"
  let ?n = "l * ?w"
  have "?n - (0 * ?w + 0) \<le> occupied b1" by (simp add: occ1)
  from pop_loop_fold [OF ok1 st1 _ this, of dst] obtain b2 where
    pop: "pop_loop b1 dst l 0 0
        = Some (b2, fold (\<lambda>j m. m(dest b1 j := popped b1 0 j)) [0..<?n] dst, Finished)"
    and ok2: "cursors_ok b2" and occ2: "occupied b2 = 0"
    by (auto simp: occ1)
  let ?d' = "fold (\<lambda>j m. m(dest b1 j := popped b1 0 j)) [0..<?n] dst"
  have cell: "?d' (int (e * ?w + k))
      = contents b1 ! ((if stack b1 then l - 1 - e else e) * ?w + k)"
    if e: "e < l" and k: "k < ?w" for e k
  proof -
    let ?i = "e * ?w + k"
    have i: "?i < ?n"
    proof -
      have "?i < (e + 1) * ?w" using k by simp
      also have "\<dots> \<le> ?n" using e by (intro mult_le_mono1) simp
      finally show ?thesis .
    qed
    let ?j = "mirror b1 ?i"
    have j: "?j < ?n" by (rule mirror_less [OF i])
    have "dest b1 ?j = int (mirror b1 ?j)" by (rule dest_mirror [OF j small])
    then have addr: "dest b1 ?j = int ?i" by (simp only: mirror_mirror [OF i])
    have "?j \<in> set [0..<?n]" using j by simp
    from fold_upd_apply [OF dest_inj [OF small] this, of "popped b1 0" dst]
    have val: "?d' (int ?i) = popped b1 0 ?j" by (simp only: addr)
    show ?thesis
    proof (cases "stack b1")
      case False
      then have "?j = ?i" by (simp add: mirror_def)
      with False val show ?thesis by (simp add: popped_def)
    next
      case True
      with mirror_at [OF k, of e] have jj: "?j = e * ?w + (?w - 1 - k)" by simp
      have "l = (l - 1 - e) + (e + 1)" using e by simp
      then have "?n = ((l - 1 - e) + (e + 1)) * ?w" by simp
      then have "?n = (l - 1 - e) * ?w + (e + 1) * ?w"
        by (simp only: add_mult_distrib)
      then have split: "?n = (l - 1 - e) * ?w + e * ?w + ?w" by simp
      have idx: "?n - 1 - (e * ?w + (?w - 1 - k)) = (l - 1 - e) * ?w + k"
        using k split by linarith
      with True val jj show ?thesis by (simp add: popped_def occ1)
    qed
  qed
  from pop ok2 occ2 cell show ?thesis by blast
qed

lemma pushToBuffer_contents:
  assumes ok: "cursors_ok b" and st: "storage_ok b"
    and fits: "occupied b + unat l * unat (width b) \<le> last_off b"
  shows "\<exists>b1. pushToBuffer b d l = Some (b1, 0) \<and> cursors_ok b1 \<and> same_shape b b1 \<and>
      contents b1 = contents b @ map (\<lambda>j. d (int j)) [0..<unat l * unat (width b)]"
proof -
  have small: "unat l * unat (width b) < 2 ^ 32"
    using fits last_off_small [of b] by linarith
  have "occupied b + (unat l * unat (width b) - (0 * unat (width b) + 0)) \<le> last_off b"
    using fits by simp
  from push_loop_contents [OF ok st _ this small, of d] obtain b1 where
    "push_loop b d (unat l) 0 0 = Some (b1, Finished)" "cursors_ok b1" "same_shape b b1"
    "contents b1 = contents b @ map (\<lambda>j. d (int j)) [0..<unat l * unat (width b)]"
    by auto
  then show ?thesis by (simp add: pushToBuffer_def)
qed

lemma push_calls_contents:
  "cursors_ok b \<Longrightarrow> storage_ok b \<Longrightarrow>
   occupied b + pushed_count calls * unat (width b) \<le> last_off b \<Longrightarrow>
   \<exists>b1. push_calls b calls = Some (b1, map (\<lambda>c. 0) calls) \<and> cursors_ok b1 \<and> same_shape b b1 \<and>
        contents b1 = contents b @ pushed_bytes (unat (width b)) calls"
proof (induction calls arbitrary: b)
  case Nil
  then show ?case by (simp add: pushed_bytes_def same_shape_refl)
next
  case (Cons c calls)
  obtain d l where c: "c = (d, l)" by (cases c)
  let ?w = "unat (width b)"
  have count: "pushed_count (c # calls) = unat l + pushed_count calls"
    by (simp add: pushed_count_def c)
  then have total: "occupied b + unat l * ?w + pushed_count calls * ?w \<le> last_off b"
    using Cons.prems(3) by (simp add: add_mult_distrib)
  then have "occupied b + unat l * ?w \<le> last_off b" by simp
  from pushToBuffer_contents [OF Cons.prems(1,2) this, of d] obtain b1 where
    b1: "pushToBuffer b d l = Some (b1, 0)" "cursors_ok b1" "same_shape b b1"
      "contents b1 = contents b @ map (\<lambda>j. d (int j)) [0..<unat l * ?w]"
    by blast
  have w1: "unat (width b1) = ?w" using b1(3) by (simp add: same_shape_def)
  have L1: "last_off b1 = last_off b" by (rule same_shape_simps(1) [OF b1(3)])
  have st1: "storage_ok b1" using same_shape_simps(5) [OF b1(3)] Cons.prems(2) by simp
  have occ1: "occupied b1 = occupied b + unat l * ?w"
    using arg_cong [OF b1(4), of length] by simp
  have "occupied b1 + pushed_count calls * unat (width b1) \<le> last_off b1"
    using total by (simp add: occ1 w1 L1)
  from Cons.IH [OF b1(2) st1 this] obtain b2 where
    b2: "push_calls b1 calls = Some (b2, map (\<lambda>c. 0) calls)" "cursors_ok b2" "same_shape b1 b2"
      "contents b2 = contents b1 @ pushed_bytes (unat (width b1)) calls"
    by blast
  have "push_calls b (c # calls) = Some (b2, map (\<lambda>c. 0) (c # calls))"
    using b1(1) b2(1) by (simp add: c)
  moreover have "same_shape b b2" by (rule same_shape_trans [OF b1(3) b2(3)])
  moreover have "contents b2 = contents b @ pushed_bytes ?w (c # calls)"
    using b1(4) b2(4) by (simp add: pushed_bytes_def c w1)
  ultimately show ?case using b2(2) by blast
qed

lemma chunks_append:
  assumes "length a = la * w"
  shows "chunks (a @ c) w (la + n) = chunks a w la @ chunks c w n"
proof (rule nth_equalityI)
  show "length (chunks (a @ c) w (la + n)) = length (chunks a w la @ chunks c w n)"
    by (simp add: chunks_def)
  fix e
  assume "e < length (chunks (a @ c) w (la + n))"
  then have e: "e < la + n" by (simp add: chunks_def)
  then have whole: "chunks (a @ c) w (la + n) ! e = map (\<lambda>k. (a @ c) ! (e * w + k)) [0..<w]"
    by (simp add: chunks_def)
  show "chunks (a @ c) w (la + n) ! e = (chunks a w la @ chunks c w n) ! e"
  proof (cases "e < la")
    case True
    have cell: "(a @ c) ! (e * w + k) = a ! (e * w + k)" if "k < w" for k
    proof -
      have "e * w + k < (e + 1) * w" using that by simp
      also have "\<dots> \<le> la * w" using True by (intro mult_le_mono1) simp
      finally show ?thesis using assms by (simp add: nth_append)
    qed
    have "map (\<lambda>k. (a @ c) ! (e * w + k)) [0..<w] = map (\<lambda>k. a ! (e * w + k)) [0..<w]"
      by (rule map_cong [OF refl]) (simp add: cell)
    moreover have "(chunks a w la @ chunks c w n) ! e = map (\<lambda>k. a ! (e * w + k)) [0..<w]"
      using True by (simp add: nth_append) (simp add: chunks_def)
    ultimately show ?thesis by (simp only: whole)
  next
    case False
    then have split: "e = la + (e - la)" by simp
    have cell: "(a @ c) ! (e * w + k) = c ! ((e - la) * w + k)" for k
    proof -
      have "e * w + k = la * w + ((e - la) * w + k)"
        using arg_cong [OF split, of "\<lambda>x. x * w + k"] by (simp add: add_mult_distrib)
      then show ?thesis using assms by (simp add: nth_append)
    qed
    have "map (\<lambda>k. (a @ c) ! (e * w + k)) [0..<w] = map (\<lambda>k. c ! ((e - la) * w + k)) [0..<w]"
      by (rule map_cong [OF refl]) (simp add: cell)
    moreover have "(chunks a w la @ chunks c w n) ! e = map (\<lambda>k. c ! ((e - la) * w + k)) [0..<w]"
      using False e by (simp add: nth_append) (simp add: chunks_def)
    ultimately show ?thesis by (simp only: whole)
  qed
qed

lemma chunks_bytes: "chunks (map (\<lambda>j. d (int j)) [0..<l * w]) w l = elements d w l"
proof -
  have "map (\<lambda>j. d (int j)) [0..<l * w] ! (e * w + k) = d (int (e * w + k))"
    if "e < l" "k < w" for e k
  proof -
    have "e * w + k < (e + 1) * w" using that by simp
    also have "\<dots> \<le> l * w" using that by (intro mult_le_mono1) simp
    finally show ?thesis by simp
  qed
  then show ?thesis by (simp add: chunks_def elements_def)
qed

lemma chunks_pushed:
  "chunks (pushed_bytes w calls) w (pushed_count calls) = pushed_elements w calls"
proof (induction calls)
  case Nil
  show ?case by (simp add: chunks_def pushed_bytes_def pushed_count_def pushed_elements_def)
next
  case (Cons c calls)
  obtain d l where c: "c = (d, l)" by (cases c)
  let ?a = "map (\<lambda>j. d (int j)) [0..<unat l * w]"
  have "length ?a = unat l * w" by simp
  from chunks_append [OF this, of "pushed_bytes w calls" "pushed_count calls"]
  have "chunks (?a @ pushed_bytes w calls) w (unat l + pushed_count calls)
      = elements d w (unat l) @ pushed_elements w calls"
    by (simp only: chunks_bytes Cons.IH)
  then show ?case by (simp add: pushed_bytes_def pushed_count_def pushed_elements_def c)
qed

lemma chunks_nth: "e < l \<Longrightarrow> k < w \<Longrightarrow> chunks c w l ! e ! k = c ! (e * w + k)"
  by (simp add: chunks_def)

lemma elements_chunks:
  assumes "\<And>e k. e < l \<Longrightarrow> k < w \<Longrightarrow> d' (int (e * w + k)) = c ! (g e * w + k)"
    and "\<And>e. e < l \<Longrightarrow> g e < l"
  shows "elements d' w l = map (\<lambda>e. chunks c w l ! g e) [0..<l]"
proof (rule nth_equalityI)
  show "length (elements d' w l) = length (map (\<lambda>e. chunks c w l ! g e) [0..<l])"
    by (simp add: elements_def)
  fix e
  assume "e < length (elements d' w l)"
  then have e: "e < l" by (simp add: elements_def)
  have "elements d' w l ! e = chunks c w l ! g e"
  proof (rule nth_equalityI)
    show "length (elements d' w l ! e) = length (chunks c w l ! g e)"
      using e assms(2) [OF e] by (simp add: elements_def chunks_def)
    fix k
    assume "k < length (elements d' w l ! e)"
    then have k: "k < w" using e by (simp add: elements_def)
    from assms(1) [OF e k] elements_nth [OF e k, of d'] chunks_nth [OF assms(2) [OF e] k, of c]
    show "elements d' w l ! e ! k = chunks c w l ! g e ! k" by simp
  qed
  with e show "elements d' w l ! e = map (\<lambda>e. chunks c w l ! g e) [0..<l] ! e" by simp
qed

lemma rev_chunks: "rev (chunks c w l) = map (\<lambda>e. chunks c w l ! (l - 1 - e)) [0..<l]"
proof (rule nth_equalityI)
  show "length (rev (chunks c w l)) = length (map (\<lambda>e. chunks c w l ! (l - 1 - e)) [0..<l])"
    by (simp add: chunks_def)
  fix e
  assume "e < length (rev (chunks c w l))"
  then have e: "e < l" by (simp add: chunks_def)
  then have "rev (chunks c w l) ! e = chunks c w l ! (l - Suc e)"
    by (simp add: rev_nth chunks_def)
  with e show "rev (chunks c w l) ! e = map (\<lambda>e. chunks c w l ! (l - 1 - e)) [0..<l] ! e"
    by simp
qed

lemma same_chunks: "chunks c w l = map (\<lambda>e. chunks c w l ! e) [0..<l]"
  by (rule nth_equalityI) (simp_all add: chunks_def)

lemma round_trip_ring:
  assumes ok: "cursors_ok b" and st: "storage_ok b" and empty: "isBufferEmpty b"
    and total: "pushed_count calls = unat l"
    and fits: "unat l * unat (width b) \<le> last_off b"
  shows "\<exists>b1 b2 d'. push_calls b calls = Some (b1, map (\<lambda>c. 0) calls) \<and>
      popFromBuffer b1 dst l = Some (b2, d', 0) \<and> isBufferEmpty b2 \<and>
      elements d' (unat (width b)) (unat l)
        = (if stack b then rev (pushed_elements (unat (width b)) calls)
           else pushed_elements (unat (width b)) calls)"
proof -
  let ?w = "unat (width b)"
  let ?l = "unat l"
  let ?c = "pushed_bytes ?w calls"
  have small: "?l * ?w < 2 ^ 32"
    using fits last_off_small [of b] by linarith
  have occ0: "occupied b = 0"
    using empty empty_iff_occupied [OF ok] by simp
  then have c0: "contents b = []" by (simp add: contents_def)
  have "occupied b + pushed_count calls * ?w \<le> last_off b"
    using fits occ0 total by simp
  from push_calls_contents [OF ok st this] c0 obtain b1 where
    push: "push_calls b calls = Some (b1, map (\<lambda>c. 0) calls)" and ok1: "cursors_ok b1"
    and sh1: "same_shape b b1" and c1: "contents b1 = ?c"
    by auto
  have w1: "unat (width b1) = ?w" and stack1: "stack b1 = stack b"
    using sh1 same_shape_simps(2) [OF sh1] by (simp_all add: same_shape_def)
  have st1: "storage_ok b1" using same_shape_simps(5) [OF sh1] st by simp
  have len: "length ?c = ?l * ?w"
    unfolding total [symmetric] pushed_bytes_def pushed_count_def
    by (induction calls) (auto simp: add_mult_distrib)
  then have occ1: "occupied b1 = ?l * unat (width b1)"
    using arg_cong [OF c1, of length] by (simp add: w1)
  from pop_after_push [OF ok1 st1 occ1, of dst] small obtain b2 d' where
    pop: "pop_loop b1 dst ?l 0 0 = Some (b2, d', Finished)" and ok2: "cursors_ok b2"
    and occ2: "occupied b2 = 0"
    and cell: "\<forall>e<?l. \<forall>k<?w.
        d' (int (e * ?w + k)) = ?c ! ((if stack b then ?l - 1 - e else e) * ?w + k)"
    unfolding w1 stack1 c1 by blast
  have popped: "popFromBuffer b1 dst l = Some (b2, d', 0)"
    using pop by (simp add: popFromBuffer_def)
  have empty2: "isBufferEmpty b2"
    using occ2 empty_iff_occupied [OF ok2] by simp
  have "elements d' ?w ?l
      = map (\<lambda>e. chunks ?c ?w ?l ! (if stack b then ?l - 1 - e else e)) [0..<?l]"
    using cell by (intro elements_chunks) auto
  also have "\<dots> = (if stack b then rev (chunks ?c ?w ?l) else chunks ?c ?w ?l)"
    using rev_chunks [of ?c ?w ?l] same_chunks [of ?c ?w ?l] by simp
  also have "chunks ?c ?w ?l = pushed_elements ?w calls"
    using chunks_pushed [of ?w calls] by (simp add: total)
  finally have "elements d' ?w ?l
      = (if stack b then rev (pushed_elements ?w calls) else pushed_elements ?w calls)" .
  with push popped empty2 show ?thesis by blast
qed

lemma fresh_stack_new: "newBuffer True True 3 4 (B_FILO AND B_DROP) = Some fresh_stack"
  by (simp add: newBuffer_def fresh_stack_def B_FILO_def B_DROP_def)

lemma zero_width_new: "newBuffer True True 3 0 (B_FIFO AND B_DROP) = Some zero_width_buffer"
  by (simp add: newBuffer_def zero_width_buffer_def B_FIFO_def B_DROP_def)

lemma zero_ring_new:
  "newBuffer True True 2147483648 2 (B_FIFO AND B_DROP) = Some zero_ring_buffer"
  by (simp add: newBuffer_def zero_ring_buffer_def B_FIFO_def B_DROP_def)

section \<open>C1: the full check\<close>

text \<open>
  Counterexample to C1 as stated. In the reachable state \<open>wrapped_buffer\<close> the queue holds
  its one element and \<^verbatim>\<open>isBufferFull\<close> answers true, since \<open>tail\<close> is one byte past \<open>head\<close>;
  the slot one past \<open>head\<close> is at offset 2, which is not \<open>tail\<close>, and \<open>tail\<close> is not at the
  start of the storage.
\<close>

theorem isBufferFull_not_slot_step:
  "isBufferFull wrapped_buffer \<and> \<not> spec_isFull wrapped_buffer"
  by (simp add: isBufferFull_def spec_isFull_def spec_advance_def wrapped_buffer_def last_off_def)

text \<open>
  C1, amended: for every buffer whose cursors lie on the ring (at most at the last
  position), whatever its mode, policy and element width, \<^verbatim>\<open>isBufferFull\<close> is true exactly
  when the position one byte past \<open>head\<close>, with wraparound from the last position to the
  start of the storage, is \<open>tail\<close>.
\<close>

theorem isBufferFull_byte_step:
  "head b \<le> last_off b \<Longrightarrow> tail b \<le> last_off b \<Longrightarrow>
   isBufferFull b \<longleftrightarrow> increment b (head b) = tail b"
  by (auto simp: isBufferFull_def increment_def)

text \<open>The amended C1 at \<open>wrapped_buffer\<close>.\<close>

theorem isBufferFull_byte_step_witness:
  "head wrapped_buffer \<le> last_off wrapped_buffer \<and> tail wrapped_buffer \<le> last_off wrapped_buffer \<and>
   (isBufferFull wrapped_buffer \<longleftrightarrow> increment wrapped_buffer (head wrapped_buffer) = tail wrapped_buffer)"
proof -
  have h: "head wrapped_buffer \<le> last_off wrapped_buffer"
    and t: "tail wrapped_buffer \<le> last_off wrapped_buffer"
    by (simp_all add: wrapped_buffer_def last_off_def)
  from isBufferFull_byte_step [OF h t] h t show ?thesis by simp
qed

section \<open>C2: the cursor steps\<close>

text \<open>
  Counterexample to C2 as stated. On the fresh buffer for four-byte elements,
  \<^verbatim>\<open>increment\<close> takes the head cursor from offset 0 to offset 1, not to the next slot at
  offset 4, and \<^verbatim>\<open>decrement\<close> takes offset 4 to offset 3, not to slot 0.
\<close>

theorem increment_not_slot_step:
  "increment fresh_buffer (head fresh_buffer) = 1 \<and>
   spec_advance fresh_buffer (head fresh_buffer) = 4 \<and>
   decrement fresh_buffer 4 = 3 \<and> spec_retreat fresh_buffer 4 = 0"
  by (simp add: increment_def decrement_def spec_advance_def spec_retreat_def
      fresh_buffer_def last_off_def)

text \<open>
  C2, amended: \<^verbatim>\<open>increment\<close> and \<^verbatim>\<open>decrement\<close> move a cursor on the ring by one byte per
  step, whatever the element width: the ring has the byte positions 0 to
  \<^verbatim>\<open>(depth - 1) * width\<close>, \<^verbatim>\<open>increment\<close> wraps from the last position to 0, \<^verbatim>\<open>decrement\<close>
  from 0 to the last position, and each undoes the other.
\<close>

theorem cursor_steps_one_byte:
  "ht \<le> last_off b \<Longrightarrow>
   increment b ht = (ht + 1) mod (last_off b + 1) \<and>
   decrement b ht = (ht + last_off b) mod (last_off b + 1) \<and>
   decrement b (increment b ht) = ht \<and>
   increment b (decrement b ht) = ht"
  by (auto simp: increment_def decrement_def mod_Suc le_mod_geq)

text \<open>The amended C2 at the last position, offset 12, of the fresh buffer.\<close>

theorem cursor_steps_one_byte_witness:
  "12 \<le> last_off fresh_buffer \<and>
   increment fresh_buffer 12 = (12 + 1) mod (last_off fresh_buffer + 1) \<and>
   decrement fresh_buffer 12 = (12 + last_off fresh_buffer) mod (last_off fresh_buffer + 1) \<and>
   decrement fresh_buffer (increment fresh_buffer 12) = 12 \<and>
   increment fresh_buffer (decrement fresh_buffer 12) = 12"
proof -
  have h: "12 \<le> last_off fresh_buffer"
    by (simp add: fresh_buffer_def last_off_def)
  show ?thesis
    by (rule conjI [OF h cursor_steps_one_byte [OF h]])
qed

section \<open>C3: the rollback of a pop\<close>

text \<open>
  A half element arises through the public interface when the ring size wraps. The
  ring of \<open>wrapped_overwrite_buffer\<close> has three positions and holds two bytes: of the
  pushed element A0, A1, A2 it keeps A1, A2. The pop of one element into memory holding
  11, 22, 33 takes these two bytes, finds the buffer empty at \<^verbatim>\<open>byteIndex = 2\<close> and rolls
  back: afterwards the buffer holds 33, A2.
\<close>

lemma pop_rollback_after_wrap:
  "newBuffer True True 1431655766 3 (B_FIFO AND B_OVERWRITE) = Some wrapped_overwrite_buffer \<and>
   Option.bind (pushToBuffer wrapped_overwrite_buffer (mem_of [0xA0, 0xA1, 0xA2]) 1) (\<lambda>(b1, r1).
     map_option (\<lambda>(b2, d, r2). (r1, contents b1, contents b2, bytes_at d 3, r2))
       (popFromBuffer b1 (mem_of [0x11, 0x22, 0x33]) 1))
   = Some (0, [0xA1, 0xA2], [0x33, 0xA2], [0xA1, 0xA2, 0x33], 1)"
  by (simp add: newBuffer_def wrapped_overwrite_buffer_def B_FIFO_def B_OVERWRITE_def
      pushToBuffer_def popFromBuffer_def push_loop.simps pop_loop.simps
      pushByte_def popByte_def store_def load_def isBufferFull_def isBufferEmpty_def
      last_off_def overwrite_def stack_def increment_def decrement_def elem_off_def
      mem_of_def bytes_at_def contents_def occupied_def ring_pos_def Let_def upt_conv_Cons)

lemma pop_rollback_half_element:
  "contents half_element_queue = [0xA1, 0xA2] \<and>
   map_option (\<lambda>(b, d, r). (head b, tail b, contents b, bytes_at d 4, r))
     (popFromBuffer half_element_queue (mem_of [0x11, 0x22, 0x33, 0x44]) 1)
     = Some (4, 2, [0x33, 0xA2], [0xA1, 0xA2, 0x33, 0x44], 1) \<and>
   contents half_element_stack = [0xA1, 0xA2] \<and>
   map_option (\<lambda>(b, d, r). (head b, tail b, contents b, bytes_at d 4, r))
     (popFromBuffer half_element_stack (mem_of [0x11, 0x22, 0x33, 0x44]) 1)
     = Some (2, 0, [0xA1, 0x22], [0x11, 0x22, 0xA1, 0xA2], 1)"
  by code_simp

text \<open>
  C3 fails on the code. A queue holds the two bytes A1, A2 of half an element and one
  element is popped into memory holding 11, 22, 33, 44. The pop finds the buffer empty
  at \<^verbatim>\<open>byteIndex = 2\<close>; the rollback loop then pushes the bytes at the offsets 2 and 1 of
  the destination, 33 and A2, not the popped bytes at the offsets 0 and 1: the buffer
  ends with the bytes 33, A2 and both cursors two positions further. The same pop from
  a stack leaves the bytes A1, 22. In both the call returns 1. The first part of the
  theorem is the same rollback after a push through the public interface.
\<close>

theorem pop_rollback_not_restoring:
  "(newBuffer True True 1431655766 3 (B_FIFO AND B_OVERWRITE) = Some wrapped_overwrite_buffer \<and>
    Option.bind (pushToBuffer wrapped_overwrite_buffer (mem_of [0xA0, 0xA1, 0xA2]) 1) (\<lambda>(b1, r1).
      map_option (\<lambda>(b2, d, r2). (r1, contents b1, contents b2, bytes_at d 3, r2))
        (popFromBuffer b1 (mem_of [0x11, 0x22, 0x33]) 1))
    = Some (0, [0xA1, 0xA2], [0x33, 0xA2], [0xA1, 0xA2, 0x33], 1)) \<and>
   (contents half_element_queue = [0xA1, 0xA2] \<and>
    map_option (\<lambda>(b, d, r). (head b, tail b, contents b, bytes_at d 4, r))
      (popFromBuffer half_element_queue (mem_of [0x11, 0x22, 0x33, 0x44]) 1)
      = Some (4, 2, [0x33, 0xA2], [0xA1, 0xA2, 0x33, 0x44], 1) \<and>
    contents half_element_stack = [0xA1, 0xA2] \<and>
    map_option (\<lambda>(b, d, r). (head b, tail b, contents b, bytes_at d 4, r))
      (popFromBuffer half_element_stack (mem_of [0x11, 0x22, 0x33, 0x44]) 1)
      = Some (2, 0, [0xA1, 0x22], [0x11, 0x22, 0xA1, 0xA2], 1))"
  by (rule conjI [OF pop_rollback_after_wrap pop_rollback_half_element])

section \<open>C4: the round trip\<close>

text \<open>
  C4 fails on the code. \<^verbatim>\<open>newBuffer(2147483648, 2, B_FIFO & B_DROP)\<close> allocates
  \<open>2 ^ 32 + 2\<close> bytes, room for the capacity asked for, but the end of the ring,
  \<^verbatim>\<open>(b->depth - 1) * (b->width)\<close>, is a product in \<^verbatim>\<open>unsigned int\<close> and wraps to 0. The
  empty queue is full from the start: the push of one element, within the capacity,
  returns 1 and transfers nothing, and the pop of one element returns 1.
\<close>

theorem round_trip_fails_on_wrap:
  "newBuffer True True 2147483648 2 (B_FIFO AND B_DROP) = Some zero_ring_buffer \<and>
   pushToBuffer zero_ring_buffer (mem_of [1, 2]) 1 = Some (zero_ring_buffer, 1) \<and>
   popFromBuffer zero_ring_buffer (mem_of []) 1 = Some (zero_ring_buffer, mem_of [], 1)"
proof -
  have full: "isBufferFull zero_ring_buffer" and drop: "\<not> overwrite zero_ring_buffer"
    and wid: "0 < unat (width zero_ring_buffer)" and empty: "isBufferEmpty zero_ring_buffer"
    by (simp_all add: isBufferFull_def isBufferEmpty_def overwrite_def zero_ring_buffer_def
        last_off_def)
  have "push_loop zero_ring_buffer (mem_of [1, 2]) (unat (1 :: 32 word)) 0 0
      = Some (zero_ring_buffer, Stopped 0 0)"
    using wid full drop by (intro push_loop_stop) simp_all
  then have push: "pushToBuffer zero_ring_buffer (mem_of [1, 2]) 1 = Some (zero_ring_buffer, 1)"
    by (simp add: pushToBuffer_def)
  have "pop_loop zero_ring_buffer (mem_of []) (unat (1 :: 32 word)) 0 0
      = Some (zero_ring_buffer, mem_of [], Stopped 0 0)"
    using wid empty by (intro pop_loop_stop) simp_all
  then have "popFromBuffer zero_ring_buffer (mem_of []) 1
      = Some (zero_ring_buffer, mem_of [], 1)"
    by (simp add: popFromBuffer_def)
  with zero_ring_new push show ?thesis by simp
qed

text \<open>
  The wrap is the only way the round trip fails. Take a freshly constructed buffer of
  any element width \<open>w\<close> and of a capacity \<open>n\<close> for which neither \<open>n + 1\<close> nor \<open>n * w\<close>
  wraps in 32-bit \<^verbatim>\<open>unsigned int\<close>, any empty buffer \<open>b\<close> that push and pop calls lead to
  from it, and any sequence of push calls whose element counts add up to \<open>l \<le> n\<close>. Under
  either policy every push call returns 0, and popping \<open>l\<close> elements then returns 0,
  leaves the buffer empty and yields, in queue mode, the pushed elements in push order
  and, in stack mode, the pushed elements in reverse push order, each element with its
  bytes in their original order.
\<close>

lemma round_trip:
  assumes new: "newBuffer True True n w beh = Some b0"
    and cap: "unat n + 1 < 2 ^ 32" and ring: "unat n * unat w < 2 ^ 32"
    and reach: "reached b0 b" and empty: "isBufferEmpty b"
    and total: "pushed_count calls = unat l" and count: "l \<le> n"
  shows "\<exists>b1 b2 d'. push_calls b calls = Some (b1, map (\<lambda>c. 0) calls) \<and>
      popFromBuffer b1 dst l = Some (b2, d', 0) \<and> isBufferEmpty b2 \<and>
      elements d' (unat w) (unat l)
        = (if stack b then rev (pushed_elements (unat w) calls)
           else pushed_elements (unat w) calls)"
proof -
  from newBuffer_fields [OF new] have ok0: "cursors_ok b0"
    and L0: "last_off b0 = unat (n * ucast w :: 32 word)" and w0: "width b0 = w"
    and len0: "length (data b0) = unat (n + 1) * unat w" by simp_all
  from reached_keeps [OF reach ok0] have ok: "cursors_ok b" and sh: "same_shape b0 b"
    by simp_all
  from sh have wb: "width b = w" by (simp add: same_shape_def w0)
  show ?thesis
  proof (cases "w = 0")
    case True
    with wb have none: "width b = 0" by simp
    have "elements dst (unat w) (unat l) = pushed_elements (unat w) calls"
      using True total by (simp add: elements_no_width pushed_elements_no_width)
    moreover have "rev (pushed_elements (unat w) calls) = pushed_elements (unat w) calls"
      using True by (simp add: pushed_elements_no_width)
    ultimately show ?thesis
      using push_calls_no_width [OF none, of calls] popFromBuffer_no_width [OF none, of dst l]
        empty
      by simp
  next
    case False
    have L: "last_off b = unat n * unat w"
      using same_shape_simps(1) [OF sh] L0 ring by (simp add: unat_ring_size)
    have len: "length (data b) = (unat n + 1) * unat w"
      using sh len0 cap by (simp add: same_shape_def unat_elements_plus_1)
    have "0 < unat w" using False by (simp add: unat_gt_0)
    then have "unat n * unat w < (unat n + 1) * unat w" by simp
    with L len have st: "storage_ok b" by (simp add: storage_ok_def)
    from count have "unat l \<le> unat n" by (simp add: word_le_nat_alt)
    then have "unat l * unat w \<le> unat n * unat w" by (rule mult_le_mono1)
    then have fits: "unat l * unat (width b) \<le> last_off b" by (simp add: wb L)
    from round_trip_ring [OF ok st empty total fits, of dst] show ?thesis unfolding wb .
  qed
qed

text \<open>
  The round trip at the fresh stack of capacity 3 and element width 4, with the elements
  10, 20 and 30 pushed one call each.
\<close>

lemma round_trip_example:
  "newBuffer True True 3 4 (B_FILO AND B_DROP) = Some fresh_stack \<and>
   unat (3 :: 32 word) + 1 < 2 ^ 32 \<and> unat (3 :: 32 word) * unat (4 :: 8 word) < 2 ^ 32 \<and>
   reached fresh_stack fresh_stack \<and> isBufferEmpty fresh_stack \<and>
   pushed_count [(mem_of (int_le 10), 1), (mem_of (int_le 20), 1), (mem_of (int_le 30), 1)]
     = unat (3 :: 32 word) \<and>
   (3 :: 32 word) \<le> 3 \<and>
   (\<exists>b1 b2 d'.
      push_calls fresh_stack
          [(mem_of (int_le 10), 1), (mem_of (int_le 20), 1), (mem_of (int_le 30), 1)]
        = Some (b1, map (\<lambda>c. 0)
            [(mem_of (int_le 10), 1), (mem_of (int_le 20), 1), (mem_of (int_le 30), 1)]) \<and>
      popFromBuffer b1 (mem_of []) 3 = Some (b2, d', 0) \<and> isBufferEmpty b2 \<and>
      elements d' (unat (4 :: 8 word)) (unat (3 :: 32 word))
        = (if stack fresh_stack
           then rev (pushed_elements (unat (4 :: 8 word))
             [(mem_of (int_le 10), 1), (mem_of (int_le 20), 1), (mem_of (int_le 30), 1)])
           else pushed_elements (unat (4 :: 8 word))
             [(mem_of (int_le 10), 1), (mem_of (int_le 20), 1), (mem_of (int_le 30), 1)]))"
proof -
  have cap: "unat (3 :: 32 word) + 1 < 2 ^ 32"
    and ring: "unat (3 :: 32 word) * unat (4 :: 8 word) < 2 ^ 32"
    and count: "(3 :: 32 word) \<le> 3" by simp_all
  have empty: "isBufferEmpty fresh_stack" by (simp add: isBufferEmpty_def fresh_stack_def)
  have total: "pushed_count
      [(mem_of (int_le 10), 1), (mem_of (int_le 20), 1), (mem_of (int_le 30), 1)]
      = unat (3 :: 32 word)"
    by (simp add: pushed_count_def)
  note goal = round_trip [OF fresh_stack_new cap ring reached.start empty total count,
      of "mem_of []"]
  from goal fresh_stack_new cap ring reached.start [of fresh_stack] empty total count
  show ?thesis by simp
qed

section \<open>C5: a push that cannot deliver\<close>

text \<open>
  C5: for every call of \<^verbatim>\<open>pushToBuffer\<close> under the drop policy that returns, let \<open>j\<close> be the
  number of bytes delivered before the first byte that finds the buffer full (no earlier
  byte did). If \<open>j\<close> is all \<open>l * width\<close> requested bytes, the call returns 0 and leaves the
  buffer as the \<open>j\<close> byte pushes left it. Otherwise the head cursor is stepped back once
  for each of the \<open>j mod width\<close> bytes already pushed of the element \<open>j div width\<close>, and the
  call returns \<open>l - j div width\<close>, the elements not transferred with the partial one.
\<close>

theorem push_drop_rollback:
  assumes drop: "\<not> overwrite b" and res: "pushToBuffer b d l = Some (b', r)"
  shows "\<exists>j s. j \<le> unat l * unat (width b) \<and> pushed b d j = Some s \<and>
      (\<forall>i<j. \<forall>t. pushed b d i = Some t \<longrightarrow> \<not> isBufferFull t) \<and>
      (if j = unat l * unat (width b) then b' = s \<and> r = 0
       else isBufferFull s \<and>
            b' = s\<lparr>head := (decrement s ^^ (j mod unat (width b))) (head s)\<rparr> \<and>
            unat r = unat l - j div unat (width b))"
proof -
  let ?w = "unat (width b)"
  from res obtain s st where loop: "push_loop b d (unat l) 0 0 = Some (s, st)"
    by (auto simp: pushToBuffer_def split: option.splits)
  from push_loop_trace [OF drop loop same_shape_refl]
  obtain j where j: "j \<le> unat l * ?w" "pushed b d j = Some s"
    "\<forall>i. i < j \<longrightarrow> (\<forall>t. pushed b d i = Some t \<longrightarrow> \<not> isBufferFull t)"
    "case st of Finished \<Rightarrow> j = unat l * ?w
      | Stopped e' k' \<Rightarrow> j < unat l * ?w \<and> e' = j div ?w \<and> k' = j mod ?w \<and> isBufferFull s"
    by auto
  show ?thesis
  proof (cases st)
    case Finished
    with res loop j show ?thesis
      by (intro exI [of _ j] exI [of _ s]) (simp add: pushToBuffer_def)
  next
    case (Stopped e' k')
    with j(4) have jl: "j < unat l * ?w" and e': "e' = j div ?w" and k': "k' = j mod ?w"
      and full: "isBufferFull s" by simp_all
    have "0 < ?w" using jl by (cases "?w = 0") simp_all
    with jl have "j div ?w < unat l"
      by (simp add: less_mult_imp_div_less)
    then have cnt: "unat (l - word_of_nat (j div ?w)) = unat l - j div ?w"
      by (intro failed_count) simp
    from res loop Stopped e' k'
    have "b' = undo_push s (j mod ?w)" "r = l - word_of_nat (j div ?w)"
      by (simp_all add: pushToBuffer_def)
    with j jl full cnt show ?thesis
      by (intro exI [of _ j] exI [of _ s]) (simp add: undo_push_funpow)
  qed
qed

text \<open>
  C5 at \<open>partial_buffer\<close>: one byte of the element is pushed, the second finds the buffer
  full, the head cursor goes back by one and the call returns 1.
\<close>

theorem push_drop_rollback_witness:
  "\<not> overwrite partial_buffer \<and>
   pushToBuffer partial_buffer (mem_of [9, 8]) 1
     = Some (partial_buffer\<lparr>data := [1, 2, 3, 9, 0, 0]\<rparr>, 1) \<and>
   (\<exists>j s. j \<le> unat (1 :: 32 word) * unat (width partial_buffer) \<and>
      pushed partial_buffer (mem_of [9, 8]) j = Some s \<and>
      (\<forall>i<j. \<forall>t. pushed partial_buffer (mem_of [9, 8]) i = Some t \<longrightarrow> \<not> isBufferFull t) \<and>
      (if j = unat (1 :: 32 word) * unat (width partial_buffer)
       then partial_buffer\<lparr>data := [1, 2, 3, 9, 0, 0]\<rparr> = s \<and> (1 :: 32 word) = 0
       else isBufferFull s \<and>
            partial_buffer\<lparr>data := [1, 2, 3, 9, 0, 0]\<rparr>
              = s\<lparr>head := (decrement s ^^ (j mod unat (width partial_buffer))) (head s)\<rparr> \<and>
            unat (1 :: 32 word) = unat (1 :: 32 word) - j div unat (width partial_buffer)))"
proof -
  have drop: "\<not> overwrite partial_buffer"
    by (simp add: overwrite_def partial_buffer_def)
  have res: "pushToBuffer partial_buffer (mem_of [9, 8]) 1
      = Some (partial_buffer\<lparr>data := [1, 2, 3, 9, 0, 0]\<rparr>, 1)"
    by code_simp
  show ?thesis
    by (rule conjI [OF drop conjI [OF res push_drop_rollback [OF drop res]]])
qed

section \<open>C6: popping from an empty buffer\<close>

text \<open>
  Counterexample to C6 as stated. \<^verbatim>\<open>newBuffer(3, 0, B_FIFO & B_DROP)\<close> returns an empty
  buffer for elements of no bytes. Asked for three elements, \<^verbatim>\<open>popFromBuffer\<close> never
  enters its inner loop, so it never looks whether the buffer is empty, and returns 0,
  not 3.
\<close>

theorem pop_empty_zero_width:
  "newBuffer True True 3 0 (B_FIFO AND B_DROP) = Some zero_width_buffer \<and>
   isBufferEmpty zero_width_buffer \<and>
   popFromBuffer zero_width_buffer (mem_of []) 3 = Some (zero_width_buffer, mem_of [], 0)"
  using zero_width_new popFromBuffer_no_width [of zero_width_buffer "mem_of []" 3]
  by (simp add: isBufferEmpty_def zero_width_buffer_def)

text \<open>
  C6, amended: for every empty buffer (\<open>head = tail\<close>) and every requested count \<open>l\<close>,
  \<^verbatim>\<open>popFromBuffer\<close> leaves cursors, storage and the caller's memory as they were, so the
  buffer is still empty; it returns the failed count \<open>l\<close> when the element width is
  positive, and 0 when the element width is 0.
\<close>

theorem pop_empty_unchanged:
  "isBufferEmpty b \<Longrightarrow> popFromBuffer b d l = Some (b, d, if width b = 0 then 0 else l)"
proof (cases "width b = 0")
  case True
  then show ?thesis by (simp add: popFromBuffer_no_width)
next
  case False
  assume "isBufferEmpty b"
  with False show ?thesis
    by (cases "l = 0")
       (auto simp: popFromBuffer_def pop_loop.simps [of b d _ 0 0] unat_gt_0 word_greater_zero_iff)
qed

text \<open>The amended C6 at the fresh buffer of element width 4, with three elements requested.\<close>

theorem pop_empty_unchanged_witness:
  "isBufferEmpty fresh_buffer \<and>
   popFromBuffer fresh_buffer (mem_of []) 3
     = Some (fresh_buffer, mem_of [], if width fresh_buffer = 0 then 0 else 3)"
proof -
  have e: "isBufferEmpty fresh_buffer"
    by (simp add: isBufferEmpty_def fresh_buffer_def)
  from pop_empty_unchanged [OF e] e show ?thesis by simp
qed

section \<open>C7: the overwrite scenario\<close>

text \<open>
  C7: into a queue of capacity 3 for four-byte elements under the overwrite policy, the
  four elements 10, 20, 30, 40 are pushed one call each, every call returning 0; popping
  three elements then returns 0 and yields 20, 30, 40 in that order.
\<close>

theorem overwrite_scenario:
  "Option.bind (newBuffer True True 3 4 (B_QUEUE AND B_OVERWRITE)) (\<lambda>b0.
   Option.bind (pushToBuffer b0 (mem_of (int_le 10)) 1) (\<lambda>(b1, r1).
   Option.bind (pushToBuffer b1 (mem_of (int_le 20)) 1) (\<lambda>(b2, r2).
   Option.bind (pushToBuffer b2 (mem_of (int_le 30)) 1) (\<lambda>(b3, r3).
   Option.bind (pushToBuffer b3 (mem_of (int_le 40)) 1) (\<lambda>(b4, r4).
   Option.bind (popFromBuffer b4 (mem_of []) 3) (\<lambda>(b5, d, r5).
     Some ([r1, r2, r3, r4, r5], bytes_at d 12)))))))
   = Some ([0, 0, 0, 0, 0], int_le 20 @ int_le 30 @ int_le 40)"
  by code_simp

section \<open>C8: construction\<close>

text \<open>
  C8 fails on the code. \<^verbatim>\<open>newBuffer(2147483648, 2, B_FIFO & B_DROP)\<close> allocates
  \<open>2 ^ 32 + 2\<close> zero bytes and sets both cursors to the start of the storage, but the
  product \<^verbatim>\<open>(b->depth - 1) * (b->width)\<close> wraps to 0 in \<^verbatim>\<open>unsigned int\<close>: on the buffer
  just constructed \<^verbatim>\<open>isBufferEmpty\<close> and \<^verbatim>\<open>isBufferFull\<close> both answer true.
\<close>

theorem newBuffer_full_on_wrap:
  "map_option (\<lambda>b. (length (data b), head b, tail b, isBufferEmpty b, isBufferFull b))
     (newBuffer True True 2147483648 2 (B_FIFO AND B_DROP))
   = Some (4294967298, 0, 0, True, True)"
  by (simp add: newBuffer_def isBufferEmpty_def isBufferFull_def last_off_def)

text \<open>
  Construction is as C8 says for every capacity \<open>n\<close> and element width \<open>w\<close> for which
  \<open>n + 1\<close> does not wrap to 0 and the product \<open>n * w\<close> in 32-bit \<^verbatim>\<open>unsigned int\<close> is not
  0, so for all \<open>n > 0\<close> and \<open>w > 0\<close> whose sizes do not wrap: \<^verbatim>\<open>newBuffer\<close> returns no
  buffer when either allocation fails, and otherwise a buffer with \<open>(n + 1) * w\<close> zero
  bytes of storage and both cursors at its start, on which \<^verbatim>\<open>isBufferEmpty\<close> is true and
  \<^verbatim>\<open>isBufferFull\<close> is false.
\<close>

lemma newBuffer_fresh:
  "n + 1 \<noteq> 0 \<Longrightarrow> n * ucast w \<noteq> (0 :: 32 word) \<Longrightarrow>
   newBuffer False c n w beh = None \<and> newBuffer m False n w beh = None \<and>
   (\<exists>b. newBuffer True True n w beh = Some b \<and>
        data b = replicate ((unat n + 1) * unat w) 0 \<and>
        head b = 0 \<and> tail b = 0 \<and> isBufferEmpty b \<and> \<not> isBufferFull b)"
  by (simp add: newBuffer_def isBufferEmpty_def isBufferFull_def last_off_def
      unat_plus_1_nowrap unat_eq_0)

text \<open>Construction at capacity 3 and element width 4.\<close>

lemma newBuffer_fresh_example:
  "(3 :: 32 word) + 1 \<noteq> 0 \<and> (3 :: 32 word) * ucast (4 :: 8 word) \<noteq> 0 \<and>
   newBuffer False True 3 4 B_DROP = None \<and> newBuffer True False 3 4 B_DROP = None \<and>
   (\<exists>b. newBuffer True True 3 4 B_DROP = Some b \<and>
        data b = replicate ((unat (3 :: 32 word) + 1) * unat (4 :: 8 word)) 0 \<and>
        head b = 0 \<and> tail b = 0 \<and> isBufferEmpty b \<and> \<not> isBufferFull b)"
  using newBuffer_fresh [of 3 4 True B_DROP True] by simp

section \<open>C9: the cursors stay in the storage\<close>

text \<open>
  C9 fails on the code. For capacity \<^verbatim>\<open>UINT_MAX\<close> the sum \<^verbatim>\<open>numberOfElements + 1\<close> wraps
  to 0, so \<^verbatim>\<open>calloc\<close> is asked for no bytes, while the last ring position is at offset
  \<open>2 ^ 32 - 1\<close>: on the buffer just constructed the cursors point at no allocated byte
  and the first push writes outside the storage.
\<close>

theorem cursors_outside_storage_at_max_capacity:
  "newBuffer True True 0xFFFFFFFF 1 (B_FIFO AND B_DROP) = Some max_capacity_buffer \<and>
   length (data max_capacity_buffer) = 0 \<and>
   pushToBuffer max_capacity_buffer (mem_of [7]) 1 = None"
proof -
  have new: "newBuffer True True 0xFFFFFFFF 1 (B_FIFO AND B_DROP) = Some max_capacity_buffer"
    by (simp add: newBuffer_def max_capacity_buffer_def B_FIFO_def B_DROP_def)
  have nf: "\<not> isBufferFull max_capacity_buffer \<or> overwrite max_capacity_buffer"
    by (simp add: isBufferFull_def max_capacity_buffer_def last_off_def unat_gt_0)
  have "pushByte max_capacity_buffer v = None" for v
    using nf by (simp add: pushByte_def store_def max_capacity_buffer_def)
  with push_loop_byte [of 0 1 0 max_capacity_buffer "mem_of [7]"] nf
  have "push_loop max_capacity_buffer (mem_of [7]) 1 0 0 = None"
    by (simp add: max_capacity_buffer_def)
  then have "pushToBuffer max_capacity_buffer (mem_of [7]) 1 = None"
    by (simp add: pushToBuffer_def)
  with new show ?thesis by (simp add: max_capacity_buffer_def)
qed

text \<open>
  For every other capacity the cursors stay in the storage. Starting from a freshly
  constructed buffer of any element width \<open>w\<close> and of a capacity \<open>n\<close> for which \<open>n + 1\<close>
  does not wrap in 32-bit \<^verbatim>\<open>unsigned int\<close>, after every sequence of push and pop calls
  both cursors are at byte offsets between 0 and \<open>n * w\<close>, the storage has \<open>(n + 1) * w\<close>
  bytes, and every further push or pop call returns without an access outside the
  storage.
\<close>

lemma cursors_in_storage:
  assumes new: "newBuffer True True n w beh = Some b0"
    and cap: "unat n + 1 < 2 ^ 32" and reach: "reached b0 b"
  shows "head b \<le> unat n * unat w \<and> tail b \<le> unat n * unat w \<and>
         length (data b) = (unat n + 1) * unat w \<and>
         (\<forall>d l. pushToBuffer b d l \<noteq> None \<and> popFromBuffer b d l \<noteq> None)"
proof -
  from newBuffer_fields [OF new] have ok0: "cursors_ok b0"
    and L0: "last_off b0 = unat (n * ucast w :: 32 word)" and w0: "width b0 = w"
    and len0: "length (data b0) = unat (n + 1) * unat w" by simp_all
  from reached_keeps [OF reach ok0] have ok: "cursors_ok b" and sh: "same_shape b0 b"
    by simp_all
  from sh have wb: "width b = w" by (simp add: same_shape_def w0)
  have L: "last_off b \<le> unat n * unat w"
    using same_shape_simps(1) [OF sh] L0 unat_ring_size_le [of n w] by simp
  have len: "length (data b) = (unat n + 1) * unat w"
    using sh len0 cap by (simp add: same_shape_def unat_elements_plus_1)
  from ok L have on_ring: "head b \<le> unat n * unat w" "tail b \<le> unat n * unat w"
    by (simp_all add: cursors_ok_def)
  have "pushToBuffer b d l \<noteq> None \<and> popFromBuffer b d l \<noteq> None" for d l
  proof (cases "w = 0")
    case True
    with wb have "width b = 0" by simp
    then show ?thesis by (simp add: pushToBuffer_no_width popFromBuffer_no_width)
  next
    case False
    then have "0 < unat w" by (simp add: unat_gt_0)
    then have "unat n * unat w < (unat n + 1) * unat w" by simp
    with L len have st: "storage_ok b" by (simp add: storage_ok_def)
    from pushToBuffer_Some [OF ok st, of d l] popFromBuffer_Some [OF ok st, of d l]
    show ?thesis by auto
  qed
  with on_ring len show ?thesis by simp
qed

text \<open>The cursors of the full buffer of capacity 3 and element width 4.\<close>

lemma cursors_in_storage_example:
  "newBuffer True True 3 4 (B_FIFO AND B_DROP) = Some fresh_buffer \<and>
   unat (3 :: 32 word) + 1 < 2 ^ 32 \<and> reached fresh_buffer full_buffer \<and>
   head full_buffer \<le> unat (3 :: 32 word) * unat (4 :: 8 word) \<and>
   tail full_buffer \<le> unat (3 :: 32 word) * unat (4 :: 8 word) \<and>
   length (data full_buffer) = (unat (3 :: 32 word) + 1) * unat (4 :: 8 word) \<and>
   (\<forall>d l. pushToBuffer full_buffer d l \<noteq> None \<and> popFromBuffer full_buffer d l \<noteq> None)"
proof -
  have cap: "unat (3 :: 32 word) + 1 < 2 ^ 32" by simp
  show ?thesis
    by (intro conjI fresh_buffer_reached cap full_buffer_reached
        cursors_in_storage [OF fresh_buffer_reached cap full_buffer_reached, THEN conjunct1]
        cursors_in_storage [OF fresh_buffer_reached cap full_buffer_reached, THEN conjunct2, THEN conjunct1]
        cursors_in_storage [OF fresh_buffer_reached cap full_buffer_reached, THEN conjunct2, THEN conjunct2, THEN conjunct1]
        cursors_in_storage [OF fresh_buffer_reached cap full_buffer_reached, THEN conjunct2, THEN conjunct2, THEN conjunct2])
qed

section \<open>C10: occupancy in whole elements\<close>

text \<open>
  C10 fails on the code. For capacity 1431655766 and element width 3 the product
  \<^verbatim>\<open>(b->depth - 1) * (b->width)\<close> is \<open>2 ^ 32 + 2\<close> and wraps to 2, so the ring has the three
  positions 0 to 2 and holds two bytes at most. Under the drop policy the first push of
  one element finds the buffer full at \<^verbatim>\<open>byteIndex = 2\<close> of element 0, the rollback loop
  runs with two bytes and the call returns 1 with both cursors back at the start. Under
  the overwrite policy the same push returns 0 and leaves two bytes occupied, which is
  no multiple of the element width 3.
\<close>

theorem rollback_inside_element_on_wrap:
  "newBuffer True True 1431655766 3 (B_FIFO AND B_DROP) = Some wrapped_ring_buffer \<and>
   map_option snd (push_loop wrapped_ring_buffer (mem_of [1, 2, 3]) 1 0 0) = Some (Stopped 0 2) \<and>
   map_option (\<lambda>(b, r). (head b, tail b, r))
     (pushToBuffer wrapped_ring_buffer (mem_of [1, 2, 3]) 1) = Some (0, 0, 1) \<and>
   newBuffer True True 1431655766 3 (B_FIFO AND B_OVERWRITE) = Some wrapped_overwrite_buffer \<and>
   map_option (\<lambda>(b, r). (occupied b, unat (width b), r))
     (pushToBuffer wrapped_overwrite_buffer (mem_of [1, 2, 3]) 1) = Some (2, 3, 0)"
  by (simp add: newBuffer_def wrapped_overwrite_buffer_def wrapped_ring_buffer_def
      B_FIFO_def B_OVERWRITE_def B_DROP_def pushToBuffer_def push_loop.simps
      pushByte_def store_def isBufferFull_def last_off_def overwrite_def
      increment_def decrement_def elem_off_def mem_of_def occupied_def Let_def)

text \<open>
  The occupancy stays in whole elements wherever the element width divides the ring
  size \<^verbatim>\<open>(b->depth - 1) * (b->width)\<close> as computed in 32-bit \<^verbatim>\<open>unsigned int\<close>, as it does
  when \<open>n * w\<close> does not wrap. Starting from such a freshly constructed buffer, after
  every complete push or pop call, under either policy, the number of occupied bytes is
  a multiple of the element width; the loops of a further push or pop then reach their
  \<^verbatim>\<open>else\<close> branch only at \<^verbatim>\<open>byteIndex = 0\<close>, so neither rollback loop runs with a nonzero
  byte count.
\<close>

lemma occupancy_whole_elements:
  assumes new: "newBuffer True True n w beh = Some b0"
    and size: "unat w dvd unat (n * ucast w :: 32 word)" and reach: "reached b0 b"
  shows "unat w dvd occupied b \<and>
     (\<forall>d l s e k. push_loop b d l 0 0 = Some (s, Stopped e k) \<longrightarrow> k = 0) \<and>
     (\<forall>d l s d' e k. pop_loop b d l 0 0 = Some (s, d', Stopped e k) \<longrightarrow> k = 0)"
proof -
  from newBuffer_fields [OF new] have ok0: "cursors_ok b0"
    and L0: "last_off b0 = unat (n * ucast w :: 32 word)" and w0: "width b0 = w"
    and occ0: "occupied b0 = 0" by simp_all
  from L0 size have ring0: "unat (width b0) dvd last_off b0"
    by (simp add: w0)
  from occ0 have whole0: "unat (width b0) dvd occupied b0" by simp
  from reached_keeps [OF reach ok0] have ok: "cursors_ok b" and sh: "same_shape b0 b"
    by simp_all
  from sh have wb: "width b = w" by (simp add: same_shape_def w0)
  from same_shape_simps(1) [OF sh] ring0 have ring: "unat (width b) dvd last_off b"
    by (simp add: wb w0)
  from reached_whole [OF ok0 whole0 ring0 reach] have whole: "unat (width b) dvd occupied b"
    by (simp add: wb w0)
  from whole have "unat w dvd occupied b" by (simp add: wb)
  moreover have "k = 0" if "push_loop b d l 0 0 = Some (s, Stopped e k)" for d l s e k
    by (rule push_stop_boundary [OF ok whole ring that])
  moreover have "k = 0" if "pop_loop b d l 0 0 = Some (s, d', Stopped e k)" for d l s d' e k
    by (rule pop_stop_boundary [OF ok whole that])
  ultimately show ?thesis by blast
qed

lemma ring_size_whole_elements:
  "unat n * unat w < 2 ^ 32 \<Longrightarrow> unat w dvd unat (n * ucast (w :: 8 word) :: 32 word)"
  by (simp add: unat_ring_size)

text \<open>
  The occupancy of the full buffer of capacity 3 and element width 4: a further push
  stops at \<^verbatim>\<open>byteIndex = 0\<close>, and so does a pop from the fresh buffer.
\<close>

lemma occupancy_whole_elements_example:
  "newBuffer True True 3 4 (B_FIFO AND B_DROP) = Some fresh_buffer \<and>
   unat (4 :: 8 word) dvd unat (3 * ucast (4 :: 8 word) :: 32 word) \<and>
   reached fresh_buffer full_buffer \<and>
   unat (4 :: 8 word) dvd occupied full_buffer \<and>
   push_loop full_buffer (mem_of (int_le 40)) 1 0 0 = Some (full_buffer, Stopped 0 0) \<and>
   pop_loop fresh_buffer (mem_of []) 1 0 0 = Some (fresh_buffer, mem_of [], Stopped 0 0)"
proof -
  have size: "unat (4 :: 8 word) dvd unat (3 * ucast (4 :: 8 word) :: 32 word)" by simp
  note whole = occupancy_whole_elements [OF fresh_buffer_reached size full_buffer_reached]
  have stop: "push_loop full_buffer (mem_of (int_le 40)) 1 0 0 = Some (full_buffer, Stopped 0 0)"
    by code_simp
  have "isBufferEmpty fresh_buffer" "0 < unat (width fresh_buffer)"
    by (simp_all add: isBufferEmpty_def fresh_buffer_def)
  then have empty: "pop_loop fresh_buffer (mem_of []) 1 0 0 = Some (fresh_buffer, mem_of [], Stopped 0 0)"
    by (intro pop_loop_stop) simp_all
  from whole fresh_buffer_reached size full_buffer_reached stop empty show ?thesis
    by blast
qed

end
